theory Spec2Isabelle
  imports Main "HOL-Library.Sublist"
begin

section \<open>Strings and character classes\<close>

text \<open>
  A JavaScript string is a sequence of UTF-16 code units. The model is \<open>string\<close>, a list
  of \<open>char\<close>: the code units below 256. The character classes of the regular expressions
  of the source are written out on that range.
\<close>

definition isLower :: "char \<Rightarrow> bool" where
  \<comment> \<open>\<^verbatim>\<open>[a-z]\<close>\<close>
  "isLower c = (c \<in> set ''abcdefghijklmnopqrstuvwxyz'')"

definition isUpper :: "char \<Rightarrow> bool" where
  \<comment> \<open>\<^verbatim>\<open>[A-Z]\<close>\<close>
  "isUpper c = (c \<in> set ''ABCDEFGHIJKLMNOPQRSTUVWXYZ'')"

definition isDigit :: "char \<Rightarrow> bool" where
  \<comment> \<open>\<^verbatim>\<open>\d\<close>, that is \<^verbatim>\<open>[0-9]\<close>\<close>
  "isDigit c = (c \<in> set ''0123456789'')"

definition isWordCh :: "char \<Rightarrow> bool" where
  \<comment> \<open>\<^verbatim>\<open>[a-zA-Z0-9_-]\<close>\<close>
  "isWordCh c = (isLower c \<or> isUpper c \<or> isDigit c \<or> c = CHR ''_'' \<or> c = CHR ''-'')"

definition isSpace :: "char \<Rightarrow> bool" where
  \<comment> \<open>\<^verbatim>\<open>\s\<close> below 256: tab, line feed, vertical tab, form feed, carriage return, space,
      no-break space\<close>
  "isSpace c = (c \<in> {CHR 0x09, CHR 0x0A, CHR 0x0B, CHR 0x0C, CHR 0x0D, CHR 0x20, CHR 0xA0})"

definition isLineTerm :: "char \<Rightarrow> bool" where
  \<comment> \<open>what \<^verbatim>\<open>.\<close> refuses without the \<^verbatim>\<open>s\<close> flag, below 256: line feed, carriage return\<close>
  "isLineTerm c = (c = CHR 0x0A \<or> c = CHR 0x0D)"

fun strIncludes :: "string \<Rightarrow> string \<Rightarrow> bool" where
  \<comment> \<open>\<^verbatim>\<open>s.includes(p)\<close>\<close>
  "strIncludes [] p = (p = [])"
| "strIncludes (c # cs) p = (prefix p (c # cs) \<or> strIncludes cs p)"

fun lastIndexOf :: "string \<Rightarrow> char \<Rightarrow> nat option" where
  \<comment> \<open>\<^verbatim>\<open>s.lastIndexOf(c)\<close>; \<open>None\<close> is the source's \<^verbatim>\<open>-1\<close>\<close>
  "lastIndexOf [] c = None"
| "lastIndexOf (x # xs) c =
     (case lastIndexOf xs c of
        Some i \<Rightarrow> Some (Suc i)
      | None \<Rightarrow> if x = c then Some 0 else None)"

section \<open>The classifier\<close>

fun hasCamelCase :: "string \<Rightarrow> bool" where
  \<comment> \<open>\<^verbatim>\<open>/[a-z][A-Z]/.test(s)\<close>\<close>
  "hasCamelCase (a # b # s) = ((isLower a \<and> isUpper b) \<or> hasCamelCase (b # s))"
| "hasCamelCase _ = False"

definition startsWithCh :: "(char \<Rightarrow> bool) \<Rightarrow> string \<Rightarrow> bool" where
  \<comment> \<open>\<^verbatim>\<open>/^[...]/.test(s)\<close> for a character class\<close>
  "startsWithCh P s = (case s of [] \<Rightarrow> False | c # _ \<Rightarrow> P c)"

definition afterLastColon :: "string \<Rightarrow> string" where
  "afterLastColon s =
     (case lastIndexOf s CHR '':'' of None \<Rightarrow> s | Some i \<Rightarrow> drop (i + 1) s)"

definition stripBang :: "string \<Rightarrow> string" where
  "stripBang s = (if prefix ''!'' s then drop 1 s else s)"

definition isFrameworkClass :: "string \<Rightarrow> bool" where
  \<comment> \<open>\<^verbatim>\<open>/^(ng-|v-|data-|aria-|role-)/.test(s)\<close>\<close>
  "isFrameworkClass s =
     (prefix ''ng-'' s \<or> prefix ''v-'' s \<or> prefix ''data-'' s \<or> prefix ''aria-'' s
      \<or> prefix ''role-'' s)"

definition isNotTailwindClass :: "string list \<Rightarrow> string \<Rightarrow> bool" where
  "isNotTailwindClass ignoreClasses className =
     (let classToCheck = stripBang (afterLastColon className) in
      if classToCheck \<in> set ignoreClasses then True
      else
        let hasCamel = hasCamelCase classToCheck;
            hasSnakeCase = (CHR ''_'' \<in> set classToCheck \<and> CHR ''['' \<notin> set classToCheck);
            isCustomClass = (startsWithCh isUpper classToCheck
                             \<or> strIncludes classToCheck ''__''
                             \<or> startsWithCh isDigit classToCheck
                             \<or> length classToCheck < 2);
            isFramework = isFrameworkClass classToCheck
        in hasCamel \<or> hasSnakeCase \<or> isCustomClass \<or> isFramework)"

section \<open>The rewriter\<close>

definition modMatchAt :: "string \<Rightarrow> string \<Rightarrow> nat option" where
  \<comment> \<open>The tail \<^verbatim>\<open>group-[^:]*:)(.+)$\<close> of the modifier pattern tried at the head of \<open>s\<close>,
      for the keyword \<open>kw\<close>: the keyword, the characters up to the first colon, the
      colon, and then a rest that is not empty and holds no line terminator. The result
      is the length of the part up to and including the colon.\<close>
  "modMatchAt kw s =
     (if prefix kw s then
        let r = drop (length kw) s;
            seg = takeWhile (\<lambda>c. c \<noteq> CHR '':'') r;
            rest = drop (length seg + 1) r
        in if length seg < length r \<and> rest \<noteq> [] \<and> (\<forall>c \<in> set rest. \<not> isLineTerm c)
           then Some (length kw + length seg + 1) else None
      else None)"

fun modifierMatch :: "string \<Rightarrow> string \<Rightarrow> (string \<times> string) option" where
  \<comment> \<open>\<^verbatim>\<open>s.match(/^(.*group-[^:]*:)(.+)$/)\<close> for \<open>kw = group-\<close>, and the \<^verbatim>\<open>peer-\<close>
      analogue: the two captured groups. The greedy \<^verbatim>\<open>.*\<close> takes the longest run
      without a line terminator after which the rest of the pattern matches, so a later
      start of the keyword is preferred to an earlier one.\<close>
  "modifierMatch kw [] = None"
| "modifierMatch kw (c # cs) =
     (case (if isLineTerm c then None else modifierMatch kw cs) of
        Some (g, a) \<Rightarrow> Some (c # g, a)
      | None \<Rightarrow>
          (case modMatchAt kw (c # cs) of
             Some n \<Rightarrow> Some (take n (c # cs), drop n (c # cs))
           | None \<Rightarrow> None))"

lemma modMatchAt_bounds:
  assumes "modMatchAt kw s = Some n"
  shows "0 < n \<and> n < length s"
proof -
  from assms have p: "prefix kw s"
    by (simp add: modMatchAt_def split: if_splits)
  then obtain r where s: "s = kw @ r" by (auto simp: prefix_def)
  let ?seg = "takeWhile (\<lambda>c. c \<noteq> CHR '':'') r"
  from assms s have n: "n = length kw + length ?seg + 1"
    and rest: "drop (length ?seg + 1) r \<noteq> []"
    by (auto simp: modMatchAt_def Let_def split: if_splits)
  from rest have "length ?seg + 1 < length r" by simp
  with n s show ?thesis by simp
qed

lemma modifierMatch_split:
  "modifierMatch kw s = Some (g, a) \<Longrightarrow> s = g @ a \<and> g \<noteq> [] \<and> a \<noteq> []"
proof (induction s arbitrary: g a)
  case Nil
  then show ?case by simp
next
  case (Cons c cs)
  show ?case
  proof (cases "if isLineTerm c then None else modifierMatch kw cs")
    case (Some p)
    obtain g' a' where p: "p = (g', a')" by (cases p)
    with Some have m: "modifierMatch kw cs = Some (g', a')"
      by (simp split: if_splits)
    from Cons.prems Some p have "g = c # g'" "a = a'" by simp_all
    with Cons.IH [OF m] show ?thesis by simp
  next
    case None
    with Cons.prems obtain n where n: "modMatchAt kw (c # cs) = Some n"
      and ga: "g = take n (c # cs)" "a = drop n (c # cs)"
      by (auto split: option.splits)
    from modMatchAt_bounds [OF n] ga show ?thesis by auto
  qed
qed

lemma modifierMatch_shorter:
  "modifierMatch kw s = Some (g, a) \<Longrightarrow> length a < length s"
  using modifierMatch_split [of kw s g a] by (cases g) auto

definition prefixLastSegment :: "string \<Rightarrow> string \<Rightarrow> string" where
  \<comment> \<open>The last block of \<^verbatim>\<open>addPrefixToClass\<close>: the prefix goes after the last colon, and
      after a leading \<^verbatim>\<open>!\<close> of what follows it.\<close>
  "prefixLastSegment pfx className =
     (case lastIndexOf className CHR '':'' of
        None \<Rightarrow>
          if prefix ''!'' className then ''!'' @ pfx @ drop 1 className
          else pfx @ className
      | Some lastColonIndex \<Rightarrow>
          let beforeLastColon = take (lastColonIndex + 1) className;
              afterLastColon = drop (lastColonIndex + 1) className
          in if prefix ''!'' afterLastColon
             then beforeLastColon @ ''!'' @ pfx @ drop 1 afterLastColon
             else beforeLastColon @ pfx @ afterLastColon)"

function addPrefixToClass :: "string \<Rightarrow> string list \<Rightarrow> string \<Rightarrow> string" where
  "addPrefixToClass pfx ignoreClasses className =
     (if strIncludes className pfx then className
      else if isNotTailwindClass ignoreClasses className then className
      else
        case (if strIncludes className ''group-'' then modifierMatch ''group-'' className
              else None) of
          Some (groupPrefix, actualClass) \<Rightarrow>
            groupPrefix @ addPrefixToClass pfx ignoreClasses actualClass
        | None \<Rightarrow>
           (case (if strIncludes className ''peer-'' then modifierMatch ''peer-'' className
                  else None) of
              Some (peerPrefix, actualClass) \<Rightarrow>
                peerPrefix @ addPrefixToClass pfx ignoreClasses actualClass
            | None \<Rightarrow> prefixLastSegment pfx className))"
  by pat_completeness auto
termination
  by (relation "measure (\<lambda>(pfx, ign, cn). length cn)")
     (auto split: if_splits dest: modifierMatch_shorter)

declare addPrefixToClass.simps [simp del]

text \<open>
  The same function with the depth of the recursion bounded by a fuel argument: \<open>None\<close>
  when the fuel runs out before the recursion has bottomed out.
\<close>

fun addPrefixFuel :: "nat \<Rightarrow> string \<Rightarrow> string list \<Rightarrow> string \<Rightarrow> string option" where
  "addPrefixFuel 0 pfx ignoreClasses className = None"
| "addPrefixFuel (Suc n) pfx ignoreClasses className =
     (if strIncludes className pfx then Some className
      else if isNotTailwindClass ignoreClasses className then Some className
      else
        case (if strIncludes className ''group-'' then modifierMatch ''group-'' className
              else None) of
          Some (groupPrefix, actualClass) \<Rightarrow>
            map_option ((@) groupPrefix) (addPrefixFuel n pfx ignoreClasses actualClass)
        | None \<Rightarrow>
           (case (if strIncludes className ''peer-'' then modifierMatch ''peer-'' className
                  else None) of
              Some (peerPrefix, actualClass) \<Rightarrow>
                map_option ((@) peerPrefix) (addPrefixFuel n pfx ignoreClasses actualClass)
            | None \<Rightarrow> Some (prefixLastSegment pfx className)))"

section \<open>Global replacement with a regular expression\<close>

text \<open>
  \<^verbatim>\<open>content.replace(re, callback)\<close> with a global pattern: the matches are collected from
  left to right, each search starting where the last match ended, and the result is the
  text with each match replaced by what the callback returns for it.

  A pattern is modelled by a matcher: given the character before the position (for a
  lookbehind; \<open>None\<close> at the start of the text) and the text from the position on, it
  returns the length of the match found there and its captured group.
\<close>

type_synonym matcher = "char option \<Rightarrow> string \<Rightarrow> (nat \<times> string) option"

datatype seg = Keep char | Hit string string

function scan :: "matcher \<Rightarrow> char option \<Rightarrow> string \<Rightarrow> seg list" where
  "scan mt prev s =
     (case mt prev s of
        None \<Rightarrow> (case s of [] \<Rightarrow> [] | c # t \<Rightarrow> Keep c # scan mt (Some c) t)
      | Some (n, cap) \<Rightarrow>
          if n = 0 \<or> s = []
          then Hit [] cap # (case s of [] \<Rightarrow> [] | c # t \<Rightarrow> Keep c # scan mt (Some c) t)
          else Hit (take n s) cap # scan mt (Some (last (take n s))) (drop n s))"
  by pat_completeness auto
termination
  by (relation "measure (\<lambda>(mt, prev, s). length s)") auto

declare scan.simps [simp del]

fun segSource :: "seg \<Rightarrow> string" where
  "segSource (Keep c) = [c]"
| "segSource (Hit m cap) = m"

fun render :: "(string \<Rightarrow> string \<Rightarrow> string) \<Rightarrow> seg \<Rightarrow> string" where
  "render f (Keep c) = [c]"
| "render f (Hit m cap) = f m cap"

definition replaceFrom ::
  "matcher \<Rightarrow> (string \<Rightarrow> string \<Rightarrow> string) \<Rightarrow> char option \<Rightarrow> string \<Rightarrow> string" where
  "replaceFrom mt f prev s = concat (map (render f) (scan mt prev s))"

definition replaceAll :: "matcher \<Rightarrow> (string \<Rightarrow> string \<Rightarrow> string) \<Rightarrow> string \<Rightarrow> string" where
  "replaceAll mt f s = replaceFrom mt f None s"

section \<open>Replacement of a string by a string\<close>

fun indexOf :: "string \<Rightarrow> string \<Rightarrow> nat option" where
  \<comment> \<open>\<^verbatim>\<open>s.indexOf(p)\<close>; \<open>None\<close> is the source's \<^verbatim>\<open>-1\<close>\<close>
  "indexOf [] p = (if p = [] then Some 0 else None)"
| "indexOf (c # cs) p =
     (if prefix p (c # cs) then Some 0 else map_option Suc (indexOf cs p))"

fun getSubstitution :: "string \<Rightarrow> string \<Rightarrow> string \<Rightarrow> string \<Rightarrow> string" where
  \<comment> \<open>The replacement text of \<^verbatim>\<open>str.replace(search, template)\<close> when both are strings:
      in the template \<^verbatim>\<open>$$\<close> stands for a dollar, \<^verbatim>\<open>$&\<close> for the matched text, \<^verbatim>\<open>$`\<close>
      for the text before the match and \<^verbatim>\<open>$'\<close> for the text after it; there are no
      captured groups, so every other character stands for itself.\<close>
  "getSubstitution matched lead trail [] = []"
| "getSubstitution matched lead trail [c] = [c]"
| "getSubstitution matched lead trail (c # d # r) =
     (if c = CHR ''$'' \<and> d = CHR ''$'' then CHR ''$'' # getSubstitution matched lead trail r
      else if c = CHR ''$'' \<and> d = CHR ''&'' then matched @ getSubstitution matched lead trail r
      else if c = CHR ''$'' \<and> d = CHR 0x60 then lead @ getSubstitution matched lead trail r
      else if c = CHR ''$'' \<and> d = CHR 0x27 then trail @ getSubstitution matched lead trail r
      else c # getSubstitution matched lead trail (d # r))"

definition jsReplaceFirst :: "string \<Rightarrow> string \<Rightarrow> string \<Rightarrow> string" where
  \<comment> \<open>\<^verbatim>\<open>str.replace(search, template)\<close> with a string pattern: the first occurrence only\<close>
  "jsReplaceFirst str search template =
     (case indexOf str search of
        None \<Rightarrow> str
      | Some i \<Rightarrow>
          let lead = take i str; trail = drop (i + length search) str
          in lead @ getSubstitution search lead trail template @ trail)"

section \<open>Token lists\<close>

function splitWs :: "string \<Rightarrow> string list" where
  \<comment> \<open>\<^verbatim>\<open>s.split(/\s+/)\<close>\<close>
  "splitWs s =
     (case dropWhile (\<lambda>c. \<not> isSpace c) s of
        [] \<Rightarrow> [s]
      | w # r \<Rightarrow> takeWhile (\<lambda>c. \<not> isSpace c) s # splitWs (dropWhile isSpace r))"
  by pat_completeness auto
termination
proof (relation "measure length")
  fix s w r
  assume a: "dropWhile (\<lambda>c. \<not> isSpace c) s = w # r"
  have "length (dropWhile isSpace r) \<le> length r" by (rule length_dropWhile_le)
  also have "\<dots> < length (dropWhile (\<lambda>c. \<not> isSpace c) s)" using a by simp
  also have "\<dots> \<le> length s" by (rule length_dropWhile_le)
  finally show "(dropWhile isSpace r, s) \<in> measure length" by simp
qed simp

declare splitWs.simps [simp del]

definition classTokens :: "string \<Rightarrow> string list" where
  \<comment> \<open>\<^verbatim>\<open>s.split(/\s+/).filter(c => c.length > 0)\<close>\<close>
  "classTokens s = filter (\<lambda>c. 0 < length c) (splitWs s)"

fun joinSp :: "string list \<Rightarrow> string" where
  \<comment> \<open>\<^verbatim>\<open>xs.join(' ')\<close>\<close>
  "joinSp [] = []"
| "joinSp [x] = x"
| "joinSp (x # y # r) = x @ '' '' @ joinSp (y # r)"

section \<open>The patterns of the extractors\<close>

definition canonicalize :: "char \<Rightarrow> char" where
  \<comment> \<open>Case folding of the \<^verbatim>\<open>i\<close> flag. The letters of the patterns are ASCII, and a code unit
      above 127 never folds to an ASCII one, so folding the ASCII letters decides every
      comparison with a letter of a pattern.\<close>
  "canonicalize c =
     (case map_of (zip ''abcdefghijklmnopqrstuvwxyz'' ''ABCDEFGHIJKLMNOPQRSTUVWXYZ'') c of
        Some u \<Rightarrow> u
      | None \<Rightarrow> c)"

definition ciPrefix :: "string \<Rightarrow> string \<Rightarrow> bool" where
  \<comment> \<open>the text starts with the keyword, letter case ignored\<close>
  "ciPrefix kw s = (map canonicalize (take (length kw) s) = map canonicalize kw)"

definition isQuote :: "char \<Rightarrow> bool" where
  \<comment> \<open>\<^verbatim>\<open>["']\<close>\<close>
  "isQuote c = (c = CHR 0x22 \<or> c = CHR 0x27)"

definition isJsxOpen :: "char \<Rightarrow> bool" where
  \<comment> \<open>\<^verbatim>\<open>[{"'`]\<close>\<close>
  "isJsxOpen c = (c = CHR ''{'' \<or> c = CHR 0x22 \<or> c = CHR 0x27 \<or> c = CHR 0x60)"

definition isJsxClose :: "char \<Rightarrow> bool" where
  \<comment> \<open>\<^verbatim>\<open>[}"'`]\<close>, and the complement of the captured \<^verbatim>\<open>[^"'`}]\<close>\<close>
  "isJsxClose c = (c = CHR ''}'' \<or> c = CHR 0x22 \<or> c = CHR 0x27 \<or> c = CHR 0x60)"

definition isApplyStop :: "char \<Rightarrow> bool" where
  \<comment> \<open>the complement of \<^verbatim>\<open>[^;{}]\<close>\<close>
  "isApplyStop c = (c = CHR '';'' \<or> c = CHR ''{'' \<or> c = CHR ''}'')"

definition attrMatch ::
  "string \<Rightarrow> (char \<Rightarrow> bool) \<Rightarrow> (char \<Rightarrow> bool) \<Rightarrow> string \<Rightarrow> (nat \<times> string) option" where
  \<comment> \<open>\<^verbatim>\<open>name\s*=\s*[open]([^close]*)[close]\<close> at the head of the text, letter case of the
      name ignored. Each greedy run is followed by a character outside its class, so no
      shorter run can match: the captured group is the longest run of characters outside
      \<open>close\<close>, and the match fails when the text ends before a closing character.\<close>
  "attrMatch name opn cls s =
     (if ciPrefix name s then
        (case dropWhile isSpace (drop (length name) s) of
           [] \<Rightarrow> None
         | e # r \<Rightarrow>
             if e \<noteq> CHR ''='' then None
             else
               (case dropWhile isSpace r of
                  [] \<Rightarrow> None
                | q # v \<Rightarrow>
                    if \<not> opn q then None
                    else
                      (case dropWhile (\<lambda>c. \<not> cls c) v of
                         [] \<Rightarrow> None
                       | q' # rest \<Rightarrow>
                           Some (length s - length rest, takeWhile (\<lambda>c. \<not> cls c) v))))
      else None)"

definition htmlClassMatch :: matcher where
  \<comment> \<open>\<^verbatim>\<open>/class\s*=\s*["']([^"']*(?:\\.[^"']*)*)["']/gis\<close>. The first run \<^verbatim>\<open>[^"']*\<close> takes every
      character up to the next quote, backslashes included, so the escape group
      \<^verbatim>\<open>(?:\\.[^"']*)*\<close> never takes anything in a successful match.\<close>
  "htmlClassMatch prev s = attrMatch ''class'' isQuote isQuote s"

definition jsClassNameMatch :: matcher where
  \<comment> \<open>\<^verbatim>\<open>/className\s*=\s*[{"'`]([^"'`}]*)[}"'`]/gi\<close>\<close>
  "jsClassNameMatch prev s = attrMatch ''className'' isJsxOpen isJsxClose s"

definition cssSelectorMatch :: matcher where
  \<comment> \<open>\<^verbatim>\<open>/(?<=^|[\s,{])\.([a-zA-Z0-9_-]+)/gm\<close>; with the \<^verbatim>\<open>m\<close> flag \<^verbatim>\<open>^\<close> holds at the start
      of the text and after a line terminator\<close>
  "cssSelectorMatch prev s =
     (if (case prev of
            None \<Rightarrow> True
          | Some p \<Rightarrow> isLineTerm p \<or> isSpace p \<or> p = CHR '','' \<or> p = CHR ''{'')
      then
        (case s of
           [] \<Rightarrow> None
         | d # r \<Rightarrow>
             if d = CHR ''.'' \<and> takeWhile isWordCh r \<noteq> []
             then Some (1 + length (takeWhile isWordCh r), takeWhile isWordCh r)
             else None)
      else None)"

definition withSemicolon :: "string \<Rightarrow> nat \<Rightarrow> nat" where
  \<comment> \<open>the optional \<^verbatim>\<open>;?\<close> after a match of length \<open>n\<close>\<close>
  "withSemicolon s n = (if n < length s \<and> s ! n = CHR '';'' then Suc n else n)"

definition applyMatch :: matcher where
  \<comment> \<open>\<^verbatim>\<open>/@apply\s+([^;{}]+);?/gs\<close>. White space is inside \<^verbatim>\<open>[^;{}]\<close>: when the white space
      after the keyword runs up to a \<^verbatim>\<open>;\<close>, a brace or the end of the text, \<^verbatim>\<open>\s+\<close> gives its
      last character trail to the captured group, which needs one.\<close>
  "applyMatch prev s =
     (if prefix ''@apply'' s then
        let r = drop 6 s;
            ws = takeWhile isSpace r;
            body = takeWhile (\<lambda>c. \<not> isApplyStop c) r
        in if ws = [] then None
           else if length ws < length body
           then Some (withSemicolon s (6 + length body), drop (length ws) body)
           else if 2 \<le> length ws
           then Some (withSemicolon s (6 + length ws), [last ws])
           else None
      else None)"

definition semicolonsMatch :: matcher where
  \<comment> \<open>\<^verbatim>\<open>/;;+/g\<close>\<close>
  "semicolonsMatch prev s =
     (let n = length (takeWhile (\<lambda>c. c = CHR '';'') s)
      in if 2 \<le> n then Some (n, []) else None)"

section \<open>The extractors\<close>

definition rewriteClassString :: "string \<Rightarrow> string list \<Rightarrow> string \<Rightarrow> string" where
  \<comment> \<open>the tokens of an attribute value, each through the rewriter, joined by single spaces\<close>
  "rewriteClassString pfx ign classString =
     joinSp (map (addPrefixToClass pfx ign) (classTokens classString))"

definition htmlCallback :: "string \<Rightarrow> string list \<Rightarrow> string \<Rightarrow> string \<Rightarrow> string" where
  "htmlCallback pfx ign match classString =
     jsReplaceFirst match classString (rewriteClassString pfx ign classString)"

definition processHtmlClasses :: "string \<Rightarrow> string list \<Rightarrow> string \<Rightarrow> string" where
  "processHtmlClasses pfx ign content = replaceAll htmlClassMatch (htmlCallback pfx ign) content"

fun changedIn :: "string \<Rightarrow> string list \<Rightarrow> seg \<Rightarrow> nat" where
  "changedIn pfx ign (Keep c) = 0"
| "changedIn pfx ign (Hit m classString) =
     length (filter (\<lambda>className. addPrefixToClass pfx ign className \<noteq> className)
       (classTokens classString))"

definition htmlChangeCount :: "string \<Rightarrow> string list \<Rightarrow> string \<Rightarrow> nat" where
  \<comment> \<open>what \<^verbatim>\<open>processHtmlClasses\<close> adds to \<^verbatim>\<open>stats.classesChanged\<close>\<close>
  "htmlChangeCount pfx ign content =
     sum_list (map (changedIn pfx ign) (scan htmlClassMatch None content))"

definition cssCallback :: "string \<Rightarrow> string list \<Rightarrow> string \<Rightarrow> string \<Rightarrow> string" where
  "cssCallback pfx ign match className =
     (if className \<in> set ign then match
      else if prefix pfx className then match
      else ''.'' @ pfx @ className)"

definition processCssSelectors :: "string \<Rightarrow> string list \<Rightarrow> string \<Rightarrow> string" where
  "processCssSelectors pfx ign content = replaceAll cssSelectorMatch (cssCallback pfx ign) content"

definition hasBrace :: "string \<Rightarrow> bool" where
  \<comment> \<open>\<^verbatim>\<open>/[\{\}]/.test(s)\<close>\<close>
  "hasBrace s = (CHR ''{'' \<in> set s \<or> CHR ''}'' \<in> set s)"

definition applyCallback :: "string \<Rightarrow> string list \<Rightarrow> string \<Rightarrow> string \<Rightarrow> string" where
  "applyCallback pfx ign match classString =
     ''@apply ''
     @ joinSp (map (\<lambda>className. if hasBrace className then className
                                 else addPrefixToClass pfx ign className)
                (classTokens classString))
     @ '';''"

definition collapseSemicolons :: "string \<Rightarrow> string" where
  \<comment> \<open>\<^verbatim>\<open>.replace(/;;+/g, ';')\<close>\<close>
  "collapseSemicolons s = replaceAll semicolonsMatch (\<lambda>match cap. '';'') s"

definition processApplyDirectives :: "string \<Rightarrow> string list \<Rightarrow> string \<Rightarrow> string" where
  "processApplyDirectives pfx ign content =
     collapseSemicolons (replaceAll applyMatch (applyCallback pfx ign) content)"

definition jsCallback :: "string \<Rightarrow> string list \<Rightarrow> string \<Rightarrow> string \<Rightarrow> string" where
  "jsCallback pfx ign match classString =
     (if strIncludes classString ''${'' \<or> strIncludes classString ''?'' then match
      else jsReplaceFirst match classString (rewriteClassString pfx ign classString))"

definition processJsClasses :: "string \<Rightarrow> string list \<Rightarrow> string \<Rightarrow> string" where
  "processJsClasses pfx ign content = replaceAll jsClassNameMatch (jsCallback pfx ign) content"

section \<open>Configuration\<close>

text \<open>
  The options object is read through three of its fields. A field holds any JavaScript
  value; of a value the checks use only whether it is truthy, whether it is a string, and
  which string it is. \<open>JObject\<close> stands for every object, array and function (all
  truthy, none a string); of a number only whether it is zero or \<open>NaN\<close> matters.
\<close>

datatype jsValue =
    JUndefined | JNull | JBool bool | JNumber int | JNaN | JString string | JObject

fun truthy :: "jsValue \<Rightarrow> bool" where
  "truthy JUndefined = False"
| "truthy JNull = False"
| "truthy (JBool b) = b"
| "truthy (JNumber n) = (n \<noteq> 0)"
| "truthy JNaN = False"
| "truthy (JString s) = (s \<noteq> [])"
| "truthy JObject = True"

fun isString :: "jsValue \<Rightarrow> bool" where
  \<comment> \<open>\<^verbatim>\<open>typeof v === 'string'\<close>\<close>
  "isString (JString s) = True"
| "isString _ = False"

record options =
  optPrefix :: jsValue
  optSourceDir :: jsValue
  optLogLevel :: jsValue

datatype configError =
  PrefixNotString | PrefixBadCharacters | SourceDirNotString | LogLevelUnknown

definition stripTrailingHyphen :: "string \<Rightarrow> string" where
  \<comment> \<open>\<^verbatim>\<open>s.replace(/-$/, '')\<close>\<close>
  "stripTrailingHyphen s = (if s \<noteq> [] \<and> last s = CHR ''-'' then butlast s else s)"

definition isWordString :: "string \<Rightarrow> bool" where
  \<comment> \<open>\<^verbatim>\<open>/^[a-zA-Z0-9_-]+$/.test(s)\<close>\<close>
  "isWordString s = (s \<noteq> [] \<and> list_all isWordCh s)"

definition logLevels :: "string list" where
  "logLevels = [''silent'', ''error'', ''warn'', ''info'', ''debug'']"

definition validateOptions :: "options \<Rightarrow> configError + unit" where
  \<comment> \<open>each \<^verbatim>\<open>throw\<close> of the source is an \<open>Inl\<close>; the second check is reached with a
      string only, the first one having thrown on every other truthy value\<close>
  "validateOptions opts =
     (if truthy (optPrefix opts) \<and> \<not> isString (optPrefix opts) then Inl PrefixNotString
      else if truthy (optPrefix opts)
              \<and> (case optPrefix opts of
                    JString s \<Rightarrow> \<not> isWordString (stripTrailingHyphen s)
                  | _ \<Rightarrow> False)
      then Inl PrefixBadCharacters
      else if truthy (optSourceDir opts) \<and> \<not> isString (optSourceDir opts)
      then Inl SourceDirNotString
      else if truthy (optLogLevel opts) \<and> optLogLevel opts \<notin> set (map JString logLevels)
      then Inl LogLevelUnknown
      else Inr ())"

definition constructBot :: "options \<Rightarrow> configError + string" where
  \<comment> \<open>The constructor, as far as the prefix goes: \<^verbatim>\<open>this.validateOptions(options)\<close>, then
      \<^verbatim>\<open>this.prefix = options.prefix || 'tw-'\<close>. The result is the prefix of the bot.\<close>
  "constructBot opts =
     (case validateOptions opts of
        Inl e \<Rightarrow> Inl e
      | Inr u \<Rightarrow>
          Inr (case optPrefix opts of
                 JString s \<Rightarrow> if s = [] then ''tw-'' else s
               | _ \<Rightarrow> ''tw-''))"

section \<open>Notions of the statements\<close>

definition defaultIgnoreClasses :: "string list" where
  \<comment> \<open>the constructor's default for \<^verbatim>\<open>ignoreClasses\<close>\<close>
  "defaultIgnoreClasses = [''swiper'', ''swiper-wrapper'', ''swiper-slide'']"

definition modifierChain :: "string list \<Rightarrow> string" where
  \<comment> \<open>a ModifierChain: segments, each followed by its colon\<close>
  "modifierChain segs = concat (map (\<lambda>s. s @ '':'') segs)"

definition insertPrefix :: "string \<Rightarrow> string \<Rightarrow> string" where
  \<comment> \<open>the prefix put in front of a base class, after its leading \<^verbatim>\<open>!\<close> if it has one\<close>
  "insertPrefix pfx b = (if prefix ''!'' b then ''!'' @ pfx @ drop 1 b else pfx @ b)"

definition lastOr :: "char option \<Rightarrow> string \<Rightarrow> char option" where
  \<comment> \<open>the character before the position reached after \<open>s\<close>, when \<open>prev\<close> stood before \<open>s\<close>\<close>
  "lastOr prev s = (if s = [] then prev else Some (last s))"

definition dq :: string where
  \<comment> \<open>a double quote, for the examples\<close>
  "dq = [CHR 0x22]"

section \<open>Properties of the classifier and the rewriter\<close>

lemma strIncludes_iff: "strIncludes s p \<longleftrightarrow> (\<exists>xs ys. s = xs @ p @ ys)"
proof (induction s)
  case Nil
  then show ?case by auto
next
  case (Cons c cs)
  show ?case
  proof
    assume "strIncludes (c # cs) p"
    then consider "prefix p (c # cs)" | "strIncludes cs p" by auto
    then show "\<exists>xs ys. c # cs = xs @ p @ ys"
    proof cases
      case 1
      then obtain ys where "c # cs = p @ ys" by (auto simp: prefix_def)
      then have "c # cs = [] @ p @ ys" by simp
      then show ?thesis by blast
    next
      case 2
      with Cons.IH obtain xs ys where "cs = xs @ p @ ys" by blast
      then have "c # cs = (c # xs) @ p @ ys" by simp
      then show ?thesis by blast
    qed
  next
    assume "\<exists>xs ys. c # cs = xs @ p @ ys"
    then obtain xs ys where e: "c # cs = xs @ p @ ys" by blast
    show "strIncludes (c # cs) p"
    proof (cases xs)
      case Nil
      with e have "prefix p (c # cs)" by (simp add: prefix_def)
      then show ?thesis by simp
    next
      case (Cons x xs')
      with e have "cs = xs' @ p @ ys" by simp
      with Cons.IH have "strIncludes cs p" by blast
      then show ?thesis by simp
    qed
  qed
qed

lemma strIncludes_mid: "strIncludes (xs @ p @ ys) p"
  by (auto simp: strIncludes_iff)

lemma strIncludes_appendI: "strIncludes a p \<Longrightarrow> strIncludes (g @ a @ h) p"
proof -
  assume "strIncludes a p"
  then obtain xs ys where "a = xs @ p @ ys" by (auto simp: strIncludes_iff)
  then have "g @ a @ h = (g @ xs) @ p @ (ys @ h)" by simp
  then show ?thesis unfolding strIncludes_iff by blast
qed

lemma lastIndexOf_None_iff: "lastIndexOf s c = None \<longleftrightarrow> c \<notin> set s"
  by (induction s) (auto split: option.splits)

lemma lastIndexOf_last:
  "c \<notin> set b \<Longrightarrow> lastIndexOf (m @ c # b) c = Some (length m)"
  by (induction m) (auto simp: lastIndexOf_None_iff split: option.splits)

lemma lastIndexOf_chain:
  assumes "c \<notin> set b" and "m = [] \<or> last m = c"
  shows "lastIndexOf (m @ b) c = (if m = [] then None else Some (length m - 1))"
proof (cases "m = []")
  case True
  with assms show ?thesis by (simp add: lastIndexOf_None_iff)
next
  case False
  with assms obtain m' where m: "m = m' @ [c]"
    by (metis append_butlast_last_id)
  with assms lastIndexOf_last [of c b m'] show ?thesis by simp
qed

lemma afterLastColon_chain:
  assumes "CHR '':'' \<notin> set b" and "m = [] \<or> last m = CHR '':''"
  shows "afterLastColon (m @ b) = b"
  using lastIndexOf_chain [OF assms] by (cases "m = []") (auto simp: afterLastColon_def)

lemma isNotTailwindClass_chain:
  assumes "CHR '':'' \<notin> set b" and "m = [] \<or> last m = CHR '':''"
  shows "isNotTailwindClass ign (m @ b) = isNotTailwindClass ign b"
proof -
  have "afterLastColon (m @ b) = afterLastColon ([] @ b)"
    using afterLastColon_chain [OF assms] afterLastColon_chain [of b "[]"] assms(1) by simp
  then show ?thesis by (simp add: isNotTailwindClass_def)
qed

lemma hasCamelCase_iff:
  "hasCamelCase s \<longleftrightarrow> (\<exists>i. Suc i < length s \<and> isLower (s ! i) \<and> isUpper (s ! Suc i))"
proof (induction s rule: hasCamelCase.induct)
  case (1 a b s)
  show ?case
  proof
    assume "hasCamelCase (a # b # s)"
    then consider "isLower a \<and> isUpper b" | "hasCamelCase (b # s)" by auto
    then show "\<exists>i. Suc i < length (a # b # s) \<and> isLower ((a # b # s) ! i) \<and> isUpper ((a # b # s) ! Suc i)"
    proof cases
      case 1
      then show ?thesis by (intro exI [of _ 0]) simp
    next
      case 2
      with "1.IH" obtain i where "Suc i < length (b # s)" "isLower ((b # s) ! i)" "isUpper ((b # s) ! Suc i)"
        by blast
      then show ?thesis by (intro exI [of _ "Suc i"]) simp
    qed
  next
    assume "\<exists>i. Suc i < length (a # b # s) \<and> isLower ((a # b # s) ! i) \<and> isUpper ((a # b # s) ! Suc i)"
    then obtain i where i: "Suc i < length (a # b # s)" "isLower ((a # b # s) ! i)" "isUpper ((a # b # s) ! Suc i)"
      by blast
    show "hasCamelCase (a # b # s)"
    proof (cases i)
      case 0
      with i show ?thesis by simp
    next
      case (Suc j)
      with i have "Suc j < length (b # s) \<and> isLower ((b # s) ! j) \<and> isUpper ((b # s) ! Suc j)" by simp
      with "1.IH" have "hasCamelCase (b # s)" by blast
      then show ?thesis by simp
    qed
  qed
qed auto

lemma modMatchAt_colon:
  assumes "modMatchAt kw s = Some n"
  shows "last (take n s) = CHR '':''"
proof -
  from assms have p: "prefix kw s"
    by (simp add: modMatchAt_def split: if_splits)
  then obtain r where s: "s = kw @ r" by (auto simp: prefix_def)
  let ?seg = "takeWhile (\<lambda>c. c \<noteq> CHR '':'') r"
  from assms s have n: "n = length kw + length ?seg + 1"
    and lt: "length ?seg < length r"
    by (auto simp: modMatchAt_def Let_def split: if_splits)
  from lt have "r ! length ?seg = CHR '':''"
    using nth_length_takeWhile [of "\<lambda>c. c \<noteq> CHR '':''" r] by simp
  moreover have "take n s = kw @ take (Suc (length ?seg)) r" using n s by simp
  moreover have "take (Suc (length ?seg)) r = take (length ?seg) r @ [r ! length ?seg]"
    using lt by (simp add: take_Suc_conv_app_nth)
  ultimately show ?thesis by simp
qed

lemma modifierMatch_colon:
  "modifierMatch kw s = Some (g, a) \<Longrightarrow> last g = CHR '':''"
proof (induction s arbitrary: g a)
  case Nil
  then show ?case by simp
next
  case (Cons c cs)
  show ?case
  proof (cases "if isLineTerm c then None else modifierMatch kw cs")
    case (Some p)
    obtain g' a' where p: "p = (g', a')" by (cases p)
    with Some have m: "modifierMatch kw cs = Some (g', a')"
      by (simp split: if_splits)
    from Cons.prems Some p have g: "g = c # g'" by simp
    from modifierMatch_split [OF m] have "g' \<noteq> []" by simp
    with Cons.IH [OF m] g show ?thesis by simp
  next
    case None
    with Cons.prems obtain n where n: "modMatchAt kw (c # cs) = Some n"
      and ga: "g = take n (c # cs)"
      by (auto split: option.splits)
    from modMatchAt_colon [OF n] ga show ?thesis by simp
  qed
qed

lemma prefixLastSegment_eq:
  "prefixLastSegment pfx cn =
     (case lastIndexOf cn CHR '':'' of
        None \<Rightarrow> insertPrefix pfx cn
      | Some i \<Rightarrow> take (i + 1) cn @ insertPrefix pfx (drop (i + 1) cn))"
  by (simp add: prefixLastSegment_def insertPrefix_def Let_def split: option.splits)

lemma modifierChain_ends: "modifierChain segs = [] \<or> last (modifierChain segs) = CHR '':''"
  by (induction segs rule: rev_induct) (auto simp: modifierChain_def)

lemma chain_split:
  assumes e: "m @ b = g @ a" and b: "CHR '':'' \<notin> set b"
    and g: "g \<noteq> []" "last g = CHR '':''"
  shows "\<exists>m'. m = g @ m' \<and> a = m' @ b"
proof -
  from e obtain us where "(m = g @ us \<and> us @ b = a) \<or> (m @ us = g \<and> b = us @ a)"
    by (auto simp: append_eq_append_conv2)
  then show ?thesis
  proof
    assume "m = g @ us \<and> us @ b = a"
    then show ?thesis by auto
  next
    assume h: "m @ us = g \<and> b = us @ a"
    show ?thesis
    proof (cases "us = []")
      case True
      with h show ?thesis by auto
    next
      case False
      with h have "last g = last us" by auto
      with False g have "CHR '':'' \<in> set us" by (metis last_in_set)
      with h b show ?thesis by auto
    qed
  qed
qed

lemma addPrefix_final:
  assumes "\<not> strIncludes cn pfx" "\<not> isNotTailwindClass ign cn"
    and "(if strIncludes cn ''group-'' then modifierMatch ''group-'' cn else None) = None"
    and "(if strIncludes cn ''peer-'' then modifierMatch ''peer-'' cn else None) = None"
  shows "addPrefixToClass pfx ign cn =
     (case lastIndexOf cn CHR '':'' of
        None \<Rightarrow> insertPrefix pfx cn
      | Some i \<Rightarrow> take (i + 1) cn @ insertPrefix pfx (drop (i + 1) cn))"
  using assms
  by (subst addPrefixToClass.simps) (simp add: prefixLastSegment_eq)

lemma addPrefix_rec:
  assumes "\<not> strIncludes cn pfx" "\<not> isNotTailwindClass ign cn"
  shows "(\<exists>g a. cn = g @ a \<and> g \<noteq> [] \<and> a \<noteq> [] \<and> last g = CHR '':''
            \<and> addPrefixToClass pfx ign cn = g @ addPrefixToClass pfx ign a)
         \<or> addPrefixToClass pfx ign cn =
             (case lastIndexOf cn CHR '':'' of
                None \<Rightarrow> insertPrefix pfx cn
              | Some i \<Rightarrow> take (i + 1) cn @ insertPrefix pfx (drop (i + 1) cn))"
proof (cases "if strIncludes cn ''group-'' then modifierMatch ''group-'' cn else None")
  case (Some p)
  obtain g a where p: "p = (g, a)" by (cases p)
  with Some have m: "modifierMatch ''group-'' cn = Some (g, a)" by (simp split: if_splits)
  have "addPrefixToClass pfx ign cn = g @ addPrefixToClass pfx ign a"
    using assms Some p by (subst addPrefixToClass.simps) simp
  with modifierMatch_split [OF m] modifierMatch_colon [OF m] show ?thesis by blast
next
  case None
  note grp = this
  show ?thesis
  proof (cases "if strIncludes cn ''peer-'' then modifierMatch ''peer-'' cn else None")
    case (Some p)
    obtain g a where p: "p = (g, a)" by (cases p)
    with Some have m: "modifierMatch ''peer-'' cn = Some (g, a)" by (simp split: if_splits)
    have "addPrefixToClass pfx ign cn = g @ addPrefixToClass pfx ign a"
      using assms grp Some p by (subst addPrefixToClass.simps) simp
    with modifierMatch_split [OF m] modifierMatch_colon [OF m] show ?thesis by blast
  next
    case None
    from addPrefix_final [OF assms grp None] show ?thesis by blast
  qed
qed

lemma addPrefix_chain:
  assumes "CHR '':'' \<notin> set b" and "m = [] \<or> last m = CHR '':''"
    and "\<not> strIncludes (m @ b) pfx" and "\<not> isNotTailwindClass ign b"
  shows "addPrefixToClass pfx ign (m @ b) = m @ insertPrefix pfx b"
  using assms
proof (induction m rule: length_induct)
  case (1 m)
  have nt: "\<not> isNotTailwindClass ign (m @ b)"
    using isNotTailwindClass_chain [OF "1.prems"(1,2)] "1.prems"(4) by simp
  from addPrefix_rec [OF "1.prems"(3) nt]
  show ?case
  proof
    assume "\<exists>g a. m @ b = g @ a \<and> g \<noteq> [] \<and> a \<noteq> [] \<and> last g = CHR '':''
        \<and> addPrefixToClass pfx ign (m @ b) = g @ addPrefixToClass pfx ign a"
    then obtain g a where ga: "m @ b = g @ a" "g \<noteq> []" "last g = CHR '':''"
      and r: "addPrefixToClass pfx ign (m @ b) = g @ addPrefixToClass pfx ign a"
      by blast
    from chain_split [OF ga(1) "1.prems"(1) ga(2,3)]
    obtain m' where m': "m = g @ m'" "a = m' @ b" by blast
    from m' ga(2) have len: "length m' < length m" by simp
    from m' "1.prems"(2) ga(2) have e: "m' = [] \<or> last m' = CHR '':''"
      by (cases "m' = []") auto
    have ni: "\<not> strIncludes (m' @ b) pfx"
    proof
      assume "strIncludes (m' @ b) pfx"
      from strIncludes_appendI [OF this, of g "[]"] m' "1.prems"(3) show False by simp
    qed
    from "1.IH" len "1.prems"(1) e ni "1.prems"(4)
    have "addPrefixToClass pfx ign (m' @ b) = m' @ insertPrefix pfx b" by blast
    with r m' show ?thesis by simp
  next
    assume f: "addPrefixToClass pfx ign (m @ b) =
      (case lastIndexOf (m @ b) CHR '':'' of
         None \<Rightarrow> insertPrefix pfx (m @ b)
       | Some i \<Rightarrow> take (i + 1) (m @ b) @ insertPrefix pfx (drop (i + 1) (m @ b)))"
    show ?thesis
    proof (cases "m = []")
      case True
      with f lastIndexOf_chain [OF "1.prems"(1,2)] show ?thesis by simp
    next
      case False
      then have "length m - 1 + 1 = length m" by (cases m) auto
      with False f lastIndexOf_chain [OF "1.prems"(1,2)] show ?thesis by simp
    qed
  qed
qed

lemma insertPrefix_includes: "strIncludes (x @ insertPrefix pfx b) pfx"
proof (cases "prefix ''!'' b")
  case True
  have "strIncludes ((x @ ''!'') @ pfx @ drop 1 b) pfx" by (rule strIncludes_mid)
  with True show ?thesis by (simp add: insertPrefix_def)
next
  case False
  have "strIncludes (x @ pfx @ b) pfx" by (rule strIncludes_mid)
  with False show ?thesis by (simp add: insertPrefix_def)
qed

lemma addPrefix_fixed_or_prefixed:
  "addPrefixToClass pfx ign cn = cn \<or> strIncludes (addPrefixToClass pfx ign cn) pfx"
proof (induction cn rule: length_induct)
  case (1 cn)
  show ?case
  proof (cases "strIncludes cn pfx \<or> isNotTailwindClass ign cn")
    case True
    then have "addPrefixToClass pfx ign cn = cn"
      by (subst addPrefixToClass.simps) auto
    then show ?thesis by simp
  next
    case False
    then have a: "\<not> strIncludes cn pfx" "\<not> isNotTailwindClass ign cn" by simp_all
    from addPrefix_rec [OF a]
    show ?thesis
    proof
      assume "\<exists>g a. cn = g @ a \<and> g \<noteq> [] \<and> a \<noteq> [] \<and> last g = CHR '':''
          \<and> addPrefixToClass pfx ign cn = g @ addPrefixToClass pfx ign a"
      then obtain g a where ga: "cn = g @ a" "g \<noteq> []"
        and r: "addPrefixToClass pfx ign cn = g @ addPrefixToClass pfx ign a"
        by blast
      from ga have "length a < length cn" by simp
      with "1.IH" have "addPrefixToClass pfx ign a = a \<or> strIncludes (addPrefixToClass pfx ign a) pfx"
        by blast
      then show ?thesis
      proof
        assume "addPrefixToClass pfx ign a = a"
        with r ga show ?thesis by simp
      next
        assume "strIncludes (addPrefixToClass pfx ign a) pfx"
        from strIncludes_appendI [OF this, of g "[]"] r show ?thesis by simp
      qed
    next
      assume f: "addPrefixToClass pfx ign cn =
        (case lastIndexOf cn CHR '':'' of
           None \<Rightarrow> insertPrefix pfx cn
         | Some i \<Rightarrow> take (i + 1) cn @ insertPrefix pfx (drop (i + 1) cn))"
      show ?thesis
      proof (cases "lastIndexOf cn CHR '':''")
        case None
        with f insertPrefix_includes [of "[]" pfx cn] show ?thesis by simp
      next
        case (Some i)
        with f insertPrefix_includes [of "take (i + 1) cn" pfx "drop (i + 1) cn"] show ?thesis by simp
      qed
    qed
  qed
qed

lemma addPrefix_guard: "strIncludes cn pfx \<Longrightarrow> addPrefixToClass pfx ign cn = cn"
  by (subst addPrefixToClass.simps) simp

lemma addPrefix_idem:
  "addPrefixToClass pfx ign (addPrefixToClass pfx ign x) = addPrefixToClass pfx ign x"
  using addPrefix_fixed_or_prefixed [of pfx ign x] addPrefix_guard [of "addPrefixToClass pfx ign x" pfx ign]
  by auto


lemma addPrefixFuel_enough:
  "length cn < n \<Longrightarrow> addPrefixFuel n pfx ign cn = Some (addPrefixToClass pfx ign cn)"
proof (induction n arbitrary: cn)
  case 0
  then show ?case by simp
next
  case (Suc n)
  have rec: "addPrefixFuel n pfx ign a = Some (addPrefixToClass pfx ign a)"
    if "modifierMatch kw cn = Some (g, a)" for kw g a
  proof -
    from modifierMatch_shorter [OF that] Suc.prems have "length a < n" by simp
    then show ?thesis by (rule Suc.IH)
  qed
  show ?case
    by (subst addPrefixToClass.simps)
       (auto split: option.splits if_splits simp: rec)
qed

lemma addPrefixFuel_base:
  assumes "modifierMatch ''group-'' cn = None" and "modifierMatch ''peer-'' cn = None"
  shows "addPrefixFuel (Suc 0) pfx ign cn = Some (addPrefixToClass pfx ign cn)"
  using assms by (subst addPrefixToClass.simps) simp


text \<open>
  C1. Rewrite equation with modifier preservation and negation: for every modifier chain
  (segments each followed by a colon) and every eligible base class \<open>b\<close> (it holds no
  colon, the classifier accepts it, which excludes the ignored classes, and the whole
  token does not contain the prefix), the rewriter returns the chain, then \<open>!\<close> followed
  by the prefix and the rest of \<open>b\<close> when \<open>b\<close> starts with \<open>!\<close>, and the prefix
  followed by \<open>b\<close> otherwise. In particular \<open>hover:!-translate-x-2\<close> with the prefix
  \<open>tw-\<close> becomes \<open>hover:!tw--translate-x-2\<close>.
\<close>

theorem rewrite_equation:
  assumes "CHR '':'' \<notin> set b"
    and "\<not> isNotTailwindClass ign b"
    and "\<not> strIncludes (modifierChain segs @ b) pfx"
  shows "addPrefixToClass pfx ign (modifierChain segs @ b) =
           modifierChain segs @ (if prefix ''!'' b then ''!'' @ pfx @ drop 1 b else pfx @ b)
         \<and> addPrefixToClass ''tw-'' defaultIgnoreClasses ''hover:!-translate-x-2'' =
             ''hover:!tw--translate-x-2''"
proof
  show "addPrefixToClass pfx ign (modifierChain segs @ b) =
      modifierChain segs @ (if prefix ''!'' b then ''!'' @ pfx @ drop 1 b else pfx @ b)"
    using addPrefix_chain [OF assms(1) modifierChain_ends assms(3,2)]
    by (simp add: insertPrefix_def)
next
  show "addPrefixToClass ''tw-'' defaultIgnoreClasses ''hover:!-translate-x-2'' =
      ''hover:!tw--translate-x-2''"
    by code_simp
qed

theorem rewrite_equation_witness:
  "addPrefixToClass ''tw-'' defaultIgnoreClasses ''group-hover:md:!bg-red-500'' =
     ''group-hover:md:!tw-bg-red-500''
   \<and> addPrefixToClass ''tw-'' defaultIgnoreClasses ''md:hover:w-[100px]'' =
     ''md:hover:tw-w-[100px]''"
proof -
  have a: "CHR '':'' \<notin> set ''!bg-red-500''" by simp
  have b: "\<not> isNotTailwindClass defaultIgnoreClasses ''!bg-red-500''" by code_simp
  have c: "\<not> strIncludes (modifierChain [''group-hover'', ''md''] @ ''!bg-red-500'') ''tw-''"
    by code_simp
  have a': "CHR '':'' \<notin> set ''w-[100px]''" by simp
  have b': "\<not> isNotTailwindClass defaultIgnoreClasses ''w-[100px]''" by code_simp
  have c': "\<not> strIncludes (modifierChain [''md'', ''hover''] @ ''w-[100px]'') ''tw-''"
    by code_simp
  show ?thesis
    using rewrite_equation [OF a b c] rewrite_equation [OF a' b' c']
    by (simp add: modifierChain_def)
qed

text \<open>
  C2. Idempotence: for every token, prefix and ignore list, rewriting the result of the
  rewriter again returns it unchanged; the guard is that a token which already contains the
  prefix anywhere is returned as it is.
\<close>

theorem rewrite_idempotent:
  "addPrefixToClass pfx ign (addPrefixToClass pfx ign x) = addPrefixToClass pfx ign x
   \<and> (strIncludes x pfx \<longrightarrow> addPrefixToClass pfx ign x = x)"
  using addPrefix_idem [of pfx ign x] addPrefix_guard [of x pfx ign] by blast

theorem rewrite_idempotent_witness:
  "addPrefixToClass ''two-'' defaultIgnoreClasses ''hover:two-bg-red-500'' =
     ''hover:two-bg-red-500''
   \<and> addPrefixToClass ''two-'' defaultIgnoreClasses
        (addPrefixToClass ''two-'' defaultIgnoreClasses ''hover:bg-red-500'') =
      addPrefixToClass ''two-'' defaultIgnoreClasses ''hover:bg-red-500''"
proof -
  have "strIncludes ''hover:two-bg-red-500'' ''two-''" by code_simp
  then show ?thesis
    using rewrite_idempotent [of "''two-''" defaultIgnoreClasses "''hover:two-bg-red-500''"]
      rewrite_idempotent [of "''two-''" defaultIgnoreClasses "''hover:bg-red-500''"]
    by blast
qed

text \<open>
  C3. Classifier definition: with \<open>c\<close> the part of the class name after its last colon,
  less one leading \<open>!\<close>, the classifier answers true exactly when \<open>c\<close> is an ignored
  class, or holds a lowercase letter immediately followed by an uppercase one, or holds
  \<open>_\<close> and no \<open>[\<close>, or starts with an uppercase letter or a digit, is shorter than two
  characters or holds \<open>__\<close>, or starts with one of \<open>ng-\<close>, \<open>v-\<close>, \<open>data-\<close>,
  \<open>aria-\<close>, \<open>role-\<close>.
\<close>

theorem classifier_definition:
  assumes "className = m @ b" and "CHR '':'' \<notin> set b" and "m = [] \<or> last m = CHR '':''"
    and "c = (if b \<noteq> [] \<and> hd b = CHR ''!'' then tl b else b)"
  shows "isNotTailwindClass ignoreClasses className \<longleftrightarrow>
     (c \<in> set ignoreClasses
      \<or> (\<exists>i. Suc i < length c \<and> isLower (c ! i) \<and> isUpper (c ! Suc i))
      \<or> (CHR ''_'' \<in> set c \<and> CHR ''['' \<notin> set c)
      \<or> (c \<noteq> [] \<and> isUpper (hd c)) \<or> (c \<noteq> [] \<and> isDigit (hd c)) \<or> length c < 2
      \<or> (\<exists>xs ys. c = xs @ ''__'' @ ys)
      \<or> (\<exists>r. c = ''ng-'' @ r) \<or> (\<exists>r. c = ''v-'' @ r) \<or> (\<exists>r. c = ''data-'' @ r)
      \<or> (\<exists>r. c = ''aria-'' @ r) \<or> (\<exists>r. c = ''role-'' @ r))"
proof -
  have c: "stripBang (afterLastColon className) = c"
    using afterLastColon_chain [OF assms(2,3)] assms(1,4)
    by (cases b) (auto simp: stripBang_def)
  have st: "startsWithCh P c \<longleftrightarrow> c \<noteq> [] \<and> P (hd c)" for P
    by (cases c) (auto simp: startsWithCh_def)
  show ?thesis
    unfolding isNotTailwindClass_def c Let_def st hasCamelCase_iff strIncludes_iff
      isFrameworkClass_def prefix_def
    by auto
qed

theorem classifier_definition_witness:
  "isNotTailwindClass defaultIgnoreClasses ''md:hover:!myClass''
   \<and> \<not> isNotTailwindClass defaultIgnoreClasses ''md:hover:!my-class''"
proof -
  have "\<exists>i. Suc i < length ''myClass'' \<and> isLower (''myClass'' ! i) \<and> isUpper (''myClass'' ! Suc i)"
    by (intro exI [of _ 1]) (simp add: isLower_def isUpper_def)
  then have "isNotTailwindClass defaultIgnoreClasses ''md:hover:!myClass''"
    using classifier_definition [of "''md:hover:!myClass''" "''md:hover:''" "''!myClass''"
        "''myClass''" defaultIgnoreClasses]
    by simp
  moreover have "\<not> isNotTailwindClass defaultIgnoreClasses ''md:hover:!my-class''"
    by code_simp
  ultimately show ?thesis by simp
qed

text \<open>
  C8. Termination of the rewriter: each recursive call on a \<open>group-\<close> or \<open>peer-\<close> modifier
  is made on the second captured group, both captured groups are non-empty and together
  they are the token, so the argument gets strictly shorter; without such a match no
  recursive call is made; and for every token, prefix and ignore list the rewriter returns
  within a recursion depth of the token's length plus one.
\<close>

theorem rewrite_terminates:
  "(modifierMatch ''group-'' cn = Some (g, a) \<or> modifierMatch ''peer-'' cn = Some (g, a)
      \<longrightarrow> g \<noteq> [] \<and> a \<noteq> [] \<and> cn = g @ a \<and> length a < length cn)
   \<and> (modifierMatch ''group-'' cn = None \<and> modifierMatch ''peer-'' cn = None
      \<longrightarrow> addPrefixFuel (Suc 0) pfx ign cn = Some (addPrefixToClass pfx ign cn))
   \<and> addPrefixFuel (Suc (length cn)) pfx ign cn = Some (addPrefixToClass pfx ign cn)"
  using modifierMatch_split [of "''group-''" cn g a] modifierMatch_split [of "''peer-''" cn g a]
    modifierMatch_shorter [of "''group-''" cn g a] modifierMatch_shorter [of "''peer-''" cn g a]
    addPrefixFuel_base [of cn pfx ign] addPrefixFuel_enough [of cn "Suc (length cn)" pfx ign]
  by auto

theorem rewrite_terminates_witness:
  "length ''peer-focus:flex'' < length ''group-hover:peer-focus:flex''
   \<and> addPrefixFuel (Suc 0) ''tw-'' defaultIgnoreClasses ''md:flex'' = Some ''md:tw-flex''
   \<and> addPrefixFuel (Suc (length ''group-hover:peer-focus:flex'')) ''tw-'' defaultIgnoreClasses
        ''group-hover:peer-focus:flex'' =
       Some ''group-hover:peer-focus:tw-flex''"
proof -
  have m: "modifierMatch ''group-'' ''group-hover:peer-focus:flex'' =
      Some (''group-hover:'', ''peer-focus:flex'')"
    by code_simp
  have n: "modifierMatch ''group-'' ''md:flex'' = None \<and> modifierMatch ''peer-'' ''md:flex'' = None"
    by code_simp
  have v: "addPrefixToClass ''tw-'' defaultIgnoreClasses ''md:flex'' = ''md:tw-flex''"
    "addPrefixToClass ''tw-'' defaultIgnoreClasses ''group-hover:peer-focus:flex'' =
       ''group-hover:peer-focus:tw-flex''"
    by code_simp+
  from m rewrite_terminates [of "''group-hover:peer-focus:flex''" "''group-hover:''"
      "''peer-focus:flex''" "''tw-''" defaultIgnoreClasses]
  have a: "length ''peer-focus:flex'' < length ''group-hover:peer-focus:flex''"
    and b: "addPrefixFuel (Suc (length ''group-hover:peer-focus:flex'')) ''tw-''
        defaultIgnoreClasses ''group-hover:peer-focus:flex'' =
      Some (addPrefixToClass ''tw-'' defaultIgnoreClasses ''group-hover:peer-focus:flex'')"
    by blast+
  from n rewrite_terminates [of "''md:flex''" "[]" "[]" "''tw-''" defaultIgnoreClasses]
  have c: "addPrefixFuel (Suc 0) ''tw-'' defaultIgnoreClasses ''md:flex'' =
      Some (addPrefixToClass ''tw-'' defaultIgnoreClasses ''md:flex'')"
    by blast
  from a b c show ?thesis unfolding v by blast
qed


section \<open>Properties of the global replacement\<close>

lemma scan_Nil: "mt prev [] = None \<Longrightarrow> scan mt prev [] = []"
  by (subst scan.simps) simp

lemma scan_Keep:
  "mt prev (c # t) = None \<Longrightarrow> scan mt prev (c # t) = Keep c # scan mt (Some c) t"
  by (subst scan.simps) simp

lemma scan_Hit:
  "mt prev s = Some (n, cap) \<Longrightarrow> 0 < n \<Longrightarrow> n \<le> length s \<Longrightarrow>
   scan mt prev s = Hit (take n s) cap # scan mt (Some (last (take n s))) (drop n s)"
  by (subst scan.simps) auto

lemma scan_source: "concat (map segSource (scan mt prev s)) = s"
proof (induction mt prev s rule: scan.induct)
  case (1 mt prev s)
  show ?case
  proof (cases "mt prev s")
    case None
    show ?thesis
    proof (cases s)
      case Nil
      with None show ?thesis by (subst scan.simps) simp
    next
      case (Cons c t)
      with None "1.IH"(1) [OF None Cons] show ?thesis by (subst scan.simps) simp
    qed
  next
    case (Some p)
    obtain n cap where p: "p = (n, cap)" by (cases p)
    show ?thesis
    proof (cases "n = 0 \<or> s = []")
      case True
      show ?thesis
      proof (cases s)
        case Nil
        with Some p show ?thesis by (subst scan.simps) simp
      next
        case (Cons c t)
        from "1.IH"(2) [OF Some p [symmetric] True Cons] Some p True Cons
        show ?thesis by (subst scan.simps) auto
      qed
    next
      case False
      from "1.IH"(3) [OF Some p [symmetric] False] Some p False
      show ?thesis by (subst scan.simps) auto
    qed
  qed
qed

lemma scan_hits:
  "Hit m cap \<in> set (scan mt prev s) \<Longrightarrow>
   \<exists>p s' n. mt p s' = Some (n, cap) \<and> m = (if n = 0 \<or> s' = [] then [] else take n s')"
proof (induction mt prev s rule: scan.induct)
  case (1 mt prev s)
  show ?case
  proof (cases "mt prev s")
    case None
    show ?thesis
    proof (cases s)
      case Nil
      with None "1.prems" show ?thesis by (simp add: scan_Nil)
    next
      case (Cons c t)
      with None "1.prems" have "Hit m cap \<in> set (scan mt (Some c) t)"
        by (simp add: scan_Keep)
      from "1.IH"(1) [OF None Cons this] show ?thesis .
    qed
  next
    case (Some p)
    obtain n cap' where p: "p = (n, cap')" by (cases p)
    show ?thesis
    proof (cases "n = 0 \<or> s = []")
      case True
      show ?thesis
      proof (cases s)
        case Nil
        with Some p "1.prems" have "m = [] \<and> cap = cap'" by (subst (asm) scan.simps) simp
        with Some p Nil show ?thesis by (intro exI [of _ prev] exI [of _ s] exI [of _ n]) simp
      next
        case (Cons c t)
        with Some p True "1.prems"
        consider "m = [] \<and> cap = cap'" | "Hit m cap \<in> set (scan mt (Some c) t)"
          by (subst (asm) scan.simps) auto
        then show ?thesis
        proof cases
          case 1
          with Some p True show ?thesis
            by (intro exI [of _ prev] exI [of _ s] exI [of _ n]) auto
        next
          case 2
          from "1.IH"(2) [OF Some p [symmetric] True Cons 2] show ?thesis .
        qed
      qed
    next
      case False
      with Some p "1.prems"
      consider "m = take n s \<and> cap = cap'"
        | "Hit m cap \<in> set (scan mt (Some (last (take n s))) (drop n s))"
        by (subst (asm) scan.simps) auto
      then show ?thesis
      proof cases
        case 1
        with Some p False show ?thesis
          by (intro exI [of _ prev] exI [of _ s] exI [of _ n]) auto
      next
        case 2
        from "1.IH"(3) [OF Some p [symmetric] False 2] show ?thesis .
      qed
    qed
  qed
qed

lemma replaceFrom_Hit:
  "mt prev s = Some (n, cap) \<Longrightarrow> 0 < n \<Longrightarrow> n \<le> length s \<Longrightarrow>
   replaceFrom mt f prev s = f (take n s) cap @ replaceFrom mt f (Some (last (take n s))) (drop n s)"
  by (simp add: replaceFrom_def scan_Hit)

lemma replaceFrom_Keep:
  "mt prev (c # t) = None \<Longrightarrow> replaceFrom mt f prev (c # t) = c # replaceFrom mt f (Some c) t"
  by (simp add: replaceFrom_def scan_Keep)

lemma replaceFrom_Nil: "mt prev [] = None \<Longrightarrow> replaceFrom mt f prev [] = []"
  by (simp add: replaceFrom_def scan_Nil)

section \<open>Shapes of the matches\<close>

lemma attrMatch_shape:
  assumes "attrMatch name opn cls s = Some (n, v)"
  shows "\<exists>head q rest. s = head @ v @ q # rest \<and> n = length head + length v + 1
           \<and> head \<noteq> [] \<and> opn (last head) \<and> cls q \<and> (\<forall>c \<in> set v. \<not> cls c)"
proof -
  let ?s1 = "drop (length name) s"
  from assms obtain e r where er: "dropWhile isSpace ?s1 = e # r" and e: "e = CHR ''=''"
    by (auto simp: attrMatch_def split: if_splits list.splits)
  from assms er e obtain q vv where qv: "dropWhile isSpace r = q # vv" and q: "opn q"
    by (auto simp: attrMatch_def split: if_splits list.splits)
  from assms er e qv q obtain q' rest where qr: "dropWhile (\<lambda>c. \<not> cls c) vv = q' # rest"
    and n: "n = length s - length rest" and v: "v = takeWhile (\<lambda>c. \<not> cls c) vv"
    by (auto simp: attrMatch_def split: if_splits list.splits)
  define head where
    "head = take (length name) s @ takeWhile isSpace ?s1 @ e # takeWhile isSpace r @ [q]"
  have "s = take (length name) s @ ?s1" by simp
  also have "?s1 = takeWhile isSpace ?s1 @ e # r"
    by (subst er [symmetric]) simp
  also have "r = takeWhile isSpace r @ q # vv"
    by (subst qv [symmetric]) simp
  also have "vv = v @ q' # rest"
    unfolding v by (subst qr [symmetric]) simp
  finally have s: "s = head @ v @ q' # rest" by (simp add: head_def)
  have "length s = length head + length v + 1 + length rest"
    by (subst s) simp
  with n have n': "n = length head + length v + 1" by simp
  have "cls q'" using hd_dropWhile [of "\<lambda>c. \<not> cls c" vv] qr by simp
  moreover have "\<forall>c \<in> set v. \<not> cls c" using v by (auto dest: set_takeWhileD)
  moreover have "head \<noteq> []" "last head = q" by (simp_all add: head_def)
  ultimately show ?thesis using s n' q by blast
qed

lemma attrMatch_bounds:
  assumes "attrMatch name opn cls s = Some (n, v)"
  shows "0 < n \<and> n \<le> length s"
  using attrMatch_shape [OF assms] by auto

lemma attrMatch_take:
  assumes "attrMatch name opn cls s = Some (n, v)"
  shows "\<exists>head q. take n s = head @ v @ [q] \<and> head \<noteq> [] \<and> opn (last head) \<and> cls q
           \<and> (\<forall>c \<in> set v. \<not> cls c)"
proof -
  from attrMatch_shape [OF assms] obtain head q rest where
    s: "s = head @ v @ q # rest" and n: "n = length head + length v + 1"
    and r: "head \<noteq> []" "opn (last head)" "cls q" "\<forall>c \<in> set v. \<not> cls c"
    by blast
  from s n have "take n s = head @ v @ [q]" by simp
  with r show ?thesis by blast
qed

lemma cssSelectorMatch_shape:
  assumes "cssSelectorMatch prev s = Some (n, c)"
  shows "0 < n \<and> n \<le> length s \<and> take n s = CHR ''.'' # c \<and> c \<noteq> [] \<and> (\<forall>x \<in> set c. isWordCh x)"
proof -
  from assms obtain r where s: "s = CHR ''.'' # r" and c: "c = takeWhile isWordCh r"
    and ne: "c \<noteq> []" and n: "n = 1 + length c"
    by (auto simp: cssSelectorMatch_def split: if_splits list.splits)
  have "length c \<le> length r" using c by (simp add: length_takeWhile_le)
  moreover have "take (length c) r = c" using c takeWhile_eq_take [of isWordCh r] by simp
  moreover have "\<forall>x \<in> set c. isWordCh x" using c by (auto dest: set_takeWhileD)
  ultimately show ?thesis using s n ne by simp
qed

lemma withSemicolon_le: "k \<le> length s \<Longrightarrow> withSemicolon s k \<le> length s \<and> k \<le> withSemicolon s k"
  by (simp add: withSemicolon_def)

lemma prefix_take: "prefix p s \<Longrightarrow> length p \<le> n \<Longrightarrow> prefix p (take n s)"
  by (auto simp: prefix_def)

lemma applyMatch_shape:
  assumes "applyMatch prev s = Some (n, cls)"
  shows "6 < n \<and> n \<le> length s \<and> prefix ''@apply'' (take n s) \<and> cls \<noteq> []
         \<and> (\<forall>c \<in> set cls. \<not> isApplyStop c)"
proof -
  define ws where "ws = takeWhile isSpace (drop 6 s)"
  define body where "body = takeWhile (\<lambda>c. \<not> isApplyStop c) (drop 6 s)"
  from assms have p: "prefix ''@apply'' s"
    unfolding applyMatch_def by (cases "prefix ''@apply'' s") simp_all
  then obtain r where r: "s = ''@apply'' @ r" unfolding prefix_def by blast
  then have len: "length s = 6 + length r" by simp
  have dr: "drop 6 s = r" by (subst r) simp
  have bl: "length body \<le> length r" unfolding body_def dr by (rule length_takeWhile_le)
  have wl: "length ws \<le> length r" unfolding ws_def dr by (rule length_takeWhile_le)
  have eq: "applyMatch prev s =
      (if ws = [] then None
       else if length ws < length body
       then Some (withSemicolon s (6 + length body), drop (length ws) body)
       else if 2 \<le> length ws then Some (withSemicolon s (6 + length ws), [last ws])
       else None)"
    unfolding applyMatch_def Let_def ws_def body_def using p by (simp only: if_True)
  have ws: "ws \<noteq> []" using assms unfolding eq by (cases "ws = []") simp_all
  have sp: "\<forall>c \<in> set ws. isSpace c" unfolding ws_def by (auto dest: set_takeWhileD)
  have nb: "\<forall>c \<in> set body. \<not> isApplyStop c" unfolding body_def by (auto dest: set_takeWhileD)
  have main: "6 < n \<and> n \<le> length s \<and> cls \<noteq> [] \<and> (\<forall>c \<in> set cls. \<not> isApplyStop c)"
  proof (cases "length ws < length body")
    case True
    with assms ws have n: "n = withSemicolon s (6 + length body)"
      and c: "cls = drop (length ws) body"
      unfolding eq by simp_all
    from bl len have "6 + length body \<le> length s" by simp
    from withSemicolon_le [OF this] n True have "6 < n \<and> n \<le> length s" by simp
    moreover have "\<forall>c \<in> set cls. \<not> isApplyStop c"
      using nb c by (auto dest: in_set_dropD)
    moreover have "cls \<noteq> []" using c True by simp
    ultimately show ?thesis by simp
  next
    case False
    with assms ws have two: "2 \<le> length ws"
      unfolding eq by (cases "2 \<le> length ws") simp_all
    with assms ws False have n: "n = withSemicolon s (6 + length ws)"
      and c: "cls = [last ws]"
      unfolding eq by simp_all
    from wl len have "6 + length ws \<le> length s" by simp
    from withSemicolon_le [OF this] n two have "6 < n \<and> n \<le> length s" by simp
    moreover have "isSpace (last ws)" using sp ws by simp
    then have "\<not> isApplyStop (last ws)" by (auto simp: isSpace_def isApplyStop_def)
    ultimately show ?thesis using c by simp
  qed
  moreover have "prefix ''@apply'' (take n s)"
    using main by (intro prefix_take [OF p]) simp
  ultimately show ?thesis by simp
qed

lemma semicolonsMatch_shape:
  assumes "semicolonsMatch prev s = Some (n, cap)"
  shows "2 \<le> n \<and> n \<le> length s \<and> hd s = CHR '';''
         \<and> (drop n s = [] \<or> hd (drop n s) \<noteq> CHR '';'')"
proof -
  from assms have n: "n = length (takeWhile (\<lambda>c. c = CHR '';'') s)" and two: "2 \<le> n"
    by (auto simp: semicolonsMatch_def Let_def split: if_splits)
  have "n \<le> length s" unfolding n by (rule length_takeWhile_le)
  moreover have "drop n s = dropWhile (\<lambda>c. c = CHR '';'') s"
    unfolding n by (simp add: dropWhile_eq_drop)
  then have "drop n s = [] \<or> hd (drop n s) \<noteq> CHR '';''"
    using hd_dropWhile [of "\<lambda>c. c = CHR '';''" s] by auto
  moreover have "hd s = CHR '';''" using n two by (cases s) (auto split: if_splits)
  ultimately show ?thesis using two by simp
qed

section \<open>String replacement and the selector pattern\<close>

lemma getSubstitution_plain:
  "CHR ''$'' \<notin> set t \<Longrightarrow> getSubstitution m lead trail t = t"
  by (induction m lead trail t rule: getSubstitution.induct) auto

lemma jsReplaceFirst_at:
  assumes "indexOf (head @ cls @ tail) cls = Some (length head)"
    and "CHR ''$'' \<notin> set new"
  shows "jsReplaceFirst (head @ cls @ tail) cls new = head @ new @ tail"
  using assms by (simp add: jsReplaceFirst_def getSubstitution_plain)

lemma takeWhile_stop: "\<not> P y \<Longrightarrow> takeWhile P (xs @ y # ys) = takeWhile P xs"
  by (induction xs) auto

lemma cssSelectorMatch_append:
  assumes "pre \<noteq> []"
  shows "cssSelectorMatch prev (pre @ CHR ''.'' # t) = cssSelectorMatch prev pre"
proof -
  have nw: "\<not> isWordCh CHR ''.''"
    by (simp add: isWordCh_def isLower_def isUpper_def isDigit_def)
  from assms obtain d r where pre: "pre = d # r" by (cases pre) auto
  show ?thesis
    unfolding pre cssSelectorMatch_def
    using nw takeWhile_stop [of isWordCh "CHR ''.''" r t] by simp
qed

lemma css_scan_append:
  "scan cssSelectorMatch prev (pre @ CHR ''.'' # t) =
     scan cssSelectorMatch prev pre @ scan cssSelectorMatch (lastOr prev pre) (CHR ''.'' # t)"
proof (induction pre arbitrary: prev rule: length_induct)
  case (1 pre)
  show ?case
  proof (cases pre)
    case Nil
    have "cssSelectorMatch prev [] = None" by (simp add: cssSelectorMatch_def)
    then show ?thesis using Nil by (simp add: scan_Nil lastOr_def)
  next
    case (Cons c cs)
    then have ne: "pre \<noteq> []" by simp
    note m = cssSelectorMatch_append [OF ne, of prev t]
    show ?thesis
    proof (cases "cssSelectorMatch prev pre")
      case None
      have "length cs < length pre" using Cons by simp
      with "1.IH" have ih: "scan cssSelectorMatch (Some c) (cs @ CHR ''.'' # t) =
          scan cssSelectorMatch (Some c) cs @ scan cssSelectorMatch (lastOr (Some c) cs) (CHR ''.'' # t)"
        by blast
      have l: "lastOr (Some c) cs = lastOr prev pre" using Cons by (simp add: lastOr_def)
      from None m Cons have "scan cssSelectorMatch prev (pre @ CHR ''.'' # t) =
          Keep c # scan cssSelectorMatch (Some c) (cs @ CHR ''.'' # t)"
        by (simp add: scan_Keep)
      moreover from None Cons have "scan cssSelectorMatch prev pre = Keep c # scan cssSelectorMatch (Some c) cs"
        by (simp add: scan_Keep)
      ultimately show ?thesis using ih l by simp
    next
      case (Some p)
      obtain n cap where p: "p = (n, cap)" by (cases p)
      from cssSelectorMatch_shape [of prev pre n cap] Some p
      have n: "0 < n" "n \<le> length pre" by simp_all
      let ?prev' = "Some (last (take n pre))"
      have "length (drop n pre) < length pre" using n ne by simp
      with "1.IH" have ih: "scan cssSelectorMatch ?prev' (drop n pre @ CHR ''.'' # t) =
          scan cssSelectorMatch ?prev' (drop n pre)
          @ scan cssSelectorMatch (lastOr ?prev' (drop n pre)) (CHR ''.'' # t)"
        by blast
      have l: "lastOr ?prev' (drop n pre) = lastOr prev pre"
      proof (cases "drop n pre = []")
        case True
        then have "take n pre = pre" using n by simp
        with True ne show ?thesis by (simp add: lastOr_def)
      next
        case False
        then have "last (drop n pre) = last pre" using n by simp
        with False ne show ?thesis by (simp add: lastOr_def)
      qed
      have a: "scan cssSelectorMatch prev (pre @ CHR ''.'' # t) =
          Hit (take n pre) cap # scan cssSelectorMatch ?prev' (drop n pre @ CHR ''.'' # t)"
        using scan_Hit [of cssSelectorMatch prev "pre @ CHR ''.'' # t" n cap] Some p m n by simp
      have b: "scan cssSelectorMatch prev pre = Hit (take n pre) cap # scan cssSelectorMatch ?prev' (drop n pre)"
        using scan_Hit [of cssSelectorMatch prev pre n cap] Some p n by simp
      show ?thesis unfolding a b ih l by simp
    qed
  qed
qed

lemma cssSelectorMatch_at:
  assumes "case prev of None \<Rightarrow> True
            | Some p \<Rightarrow> isLineTerm p \<or> isSpace p \<or> p = CHR '','' \<or> p = CHR ''{''"
    and "c \<noteq> []" and "\<forall>x \<in> set c. isWordCh x" and "post = [] \<or> \<not> isWordCh (hd post)"
  shows "cssSelectorMatch prev (CHR ''.'' # c @ post) = Some (1 + length c, c)"
proof -
  have "takeWhile isWordCh (c @ post) = c"
  proof (cases post)
    case Nil
    with assms(3) show ?thesis by simp
  next
    case (Cons y ys)
    with assms(4) have "\<not> isWordCh y" by simp
    with takeWhile_stop [of isWordCh y c ys] assms(3) Cons show ?thesis by simp
  qed
  with assms(1,2) show ?thesis
    by (auto simp: cssSelectorMatch_def split: option.splits)
qed

lemma css_occurrence:
  assumes "pre = [] \<or> isLineTerm (last pre) \<or> isSpace (last pre) \<or> last pre = CHR '',''
           \<or> last pre = CHR ''{''"
    and "c \<noteq> []" and "\<forall>x \<in> set c. isWordCh x" and "post = [] \<or> \<not> isWordCh (hd post)"
  shows "processCssSelectors pfx ign (pre @ ''.'' @ c @ post) =
     processCssSelectors pfx ign pre
     @ (if c \<in> set ign \<or> prefix pfx c then ''.'' @ c else ''.'' @ pfx @ c)
     @ replaceFrom cssSelectorMatch (cssCallback pfx ign) (Some (last c)) post"
proof -
  let ?prev = "lastOr None pre"
  have lb: "case ?prev of None \<Rightarrow> True
      | Some p \<Rightarrow> isLineTerm p \<or> isSpace p \<or> p = CHR '','' \<or> p = CHR ''{''"
    using assms(1) by (auto simp: lastOr_def)
  note m = cssSelectorMatch_at [OF lb assms(2,3,4)]
  have t: "take (1 + length c) (CHR ''.'' # c @ post) = CHR ''.'' # c" by simp
  have d: "drop (1 + length c) (CHR ''.'' # c @ post) = post" by simp
  have "scan cssSelectorMatch ?prev (CHR ''.'' # c @ post) =
      Hit (CHR ''.'' # c) c # scan cssSelectorMatch (Some (last c)) post"
    using scan_Hit [of cssSelectorMatch ?prev "CHR ''.'' # c @ post" "1 + length c" c] m assms(2)
    unfolding t d by simp
  then have "scan cssSelectorMatch None (pre @ CHR ''.'' # c @ post) =
      scan cssSelectorMatch None pre @ Hit (CHR ''.'' # c) c # scan cssSelectorMatch (Some (last c)) post"
    using css_scan_append [of None pre "c @ post"] by simp
  then show ?thesis
    by (simp add: processCssSelectors_def replaceAll_def replaceFrom_def cssCallback_def)
qed

section \<open>Semicolons, directives and attribute regions\<close>

lemma strIncludes_semis_Nil: "\<not> strIncludes [] '';;''"
  by simp

lemma strIncludes_semis_Cons:
  "strIncludes (c # r) '';;'' \<longleftrightarrow> (c = CHR '';'' \<and> r \<noteq> [] \<and> hd r = CHR '';'') \<or> strIncludes r '';;''"
  by (cases r) auto

lemma semicolonsMatch_None:
  assumes "semicolonsMatch prev (c # t) = None" and "c = CHR '';''"
  shows "t = [] \<or> hd t \<noteq> CHR '';''"
  using assms by (cases t) (auto simp: semicolonsMatch_def Let_def split: if_splits)

lemma collapse_from:
  "\<not> strIncludes (replaceFrom semicolonsMatch (\<lambda>match cap. '';'') prev s) '';;''
   \<and> (replaceFrom semicolonsMatch (\<lambda>match cap. '';'') prev s \<noteq> []
        \<and> hd (replaceFrom semicolonsMatch (\<lambda>match cap. '';'') prev s) = CHR '';''
       \<longrightarrow> s \<noteq> [] \<and> hd s = CHR '';'')"
proof (induction s arbitrary: prev rule: length_induct)
  case (1 s)
  let ?R = "replaceFrom semicolonsMatch (\<lambda>match cap. '';'')"
  show ?case
  proof (cases "semicolonsMatch prev s")
    case None
    show ?thesis
    proof (cases s)
      case Nil
      with None show ?thesis by (simp add: replaceFrom_Nil)
    next
      case (Cons c t)
      define X where "X = ?R (Some c) t"
      from Cons None have r: "?R prev s = c # X"
        by (simp add: replaceFrom_Keep X_def)
      have "length t < length s" using Cons by simp
      with "1.IH" have ih: "\<not> strIncludes X '';;''"
        "X \<noteq> [] \<and> hd X = CHR '';'' \<longrightarrow> t \<noteq> [] \<and> hd t = CHR '';''"
        unfolding X_def by blast+
      have "c = CHR '';'' \<longrightarrow> t = [] \<or> hd t \<noteq> CHR '';''"
        using semicolonsMatch_None [of prev c t] None Cons by auto
      with ih(2) have "\<not> (c = CHR '';'' \<and> X \<noteq> [] \<and> hd X = CHR '';'')" by blast
      with ih(1) have a: "\<not> strIncludes (c # X) '';;''"
        unfolding strIncludes_semis_Cons by blast
      have b: "s \<noteq> [] \<and> hd s = c" using Cons by simp
      show ?thesis unfolding r using a b by (simp del: strIncludes.simps)
    qed
  next
    case (Some p)
    obtain n cap where p: "p = (n, cap)" by (cases p)
    from semicolonsMatch_shape [of prev s n cap] Some p
    have n: "2 \<le> n" "n \<le> length s" and h: "hd s = CHR '';''"
      and d: "drop n s = [] \<or> hd (drop n s) \<noteq> CHR '';''"
      by simp_all
    define X where "X = ?R (Some (last (take n s))) (drop n s)"
    have r: "?R prev s = CHR '';'' # X"
      using replaceFrom_Hit [of semicolonsMatch prev s n cap] Some p n by (simp add: X_def)
    have "length (drop n s) < length s" using n by simp
    with "1.IH" have ih: "\<not> strIncludes X '';;''"
      "X \<noteq> [] \<and> hd X = CHR '';'' \<longrightarrow> drop n s \<noteq> [] \<and> hd (drop n s) = CHR '';''"
      unfolding X_def by blast+
    from ih(2) d have "\<not> (X \<noteq> [] \<and> hd X = CHR '';'')" by blast
    with ih(1) have a: "\<not> strIncludes (CHR '';'' # X) '';;''"
      unfolding strIncludes_semis_Cons by blast
    from n have b: "s \<noteq> []" by auto
    show ?thesis unfolding r using a b h by (simp del: strIncludes.simps)
  qed
qed

lemma collapse_no_double: "\<not> strIncludes (collapseSemicolons s) '';;''"
  using collapse_from [of None s] by (simp add: collapseSemicolons_def replaceAll_def)

lemma apply_at:
  assumes "applyMatch prev s = Some (n, cls)"
  shows "replaceFrom applyMatch (applyCallback pfx ign) prev s =
     ''@apply ''
     @ joinSp (map (\<lambda>className. if hasBrace className then className
                                 else addPrefixToClass pfx ign className)
                (classTokens cls))
     @ '';''
     @ replaceFrom applyMatch (applyCallback pfx ign) (Some (last (take n s))) (drop n s)"
proof -
  from applyMatch_shape [OF assms] have "0 < n" "n \<le> length s" by simp_all
  from replaceFrom_Hit [of applyMatch prev s n cls, OF assms this]
  show ?thesis by (simp add: applyCallback_def)
qed

lemma splitWs_chars: "t \<in> set (splitWs s) \<Longrightarrow> set t \<subseteq> set s"
proof (induction s rule: splitWs.induct)
  case (1 s)
  show ?case
  proof (cases "dropWhile (\<lambda>c. \<not> isSpace c) s")
    case Nil
    with "1.prems" show ?thesis by (subst (asm) splitWs.simps) simp
  next
    case (Cons w r)
    with "1.prems" consider "t = takeWhile (\<lambda>c. \<not> isSpace c) s"
      | "t \<in> set (splitWs (dropWhile isSpace r))"
      by (subst (asm) splitWs.simps) auto
    then show ?thesis
    proof cases
      case 1
      then show ?thesis by (auto dest: set_takeWhileD)
    next
      case 2
      from "1.IH" [OF Cons 2] have "set t \<subseteq> set (dropWhile isSpace r)" .
      also have "\<dots> \<subseteq> set r" by (auto dest: set_dropWhileD)
      also have "\<dots> \<subseteq> set (dropWhile (\<lambda>c. \<not> isSpace c) s)" using Cons by auto
      also have "\<dots> \<subseteq> set s" by (auto dest: set_dropWhileD)
      finally show ?thesis .
    qed
  qed
qed

lemma apply_no_brace:
  assumes "applyMatch prev s = Some (n, cls)" and "t \<in> set (classTokens cls)"
  shows "\<not> hasBrace t"
proof -
  from assms(2) have "set t \<subseteq> set cls" by (auto simp: classTokens_def dest: splitWs_chars)
  moreover from applyMatch_shape [OF assms(1)] have "\<forall>c \<in> set cls. \<not> isApplyStop c" by simp
  ultimately show ?thesis by (auto simp: hasBrace_def isApplyStop_def)
qed

lemma js_refusal_at:
  assumes "jsClassNameMatch prev s = Some (n, cls)"
    and "strIncludes cls ''${'' \<or> strIncludes cls ''?''"
  shows "replaceFrom jsClassNameMatch (jsCallback pfx ign) prev s =
     take n s @ replaceFrom jsClassNameMatch (jsCallback pfx ign) (Some (last (take n s))) (drop n s)"
proof -
  from assms(1) have "0 < n" "n \<le> length s"
    using attrMatch_bounds [of "''className''" isJsxOpen isJsxClose s n cls]
    by (simp_all add: jsClassNameMatch_def)
  from replaceFrom_Hit [of jsClassNameMatch prev s n cls, OF assms(1) this] assms(2)
  show ?thesis by (simp add: jsCallback_def)
qed

lemma scan_hit_take:
  assumes "Hit m cap \<in> set (scan mt prev s)"
    and "\<And>p s' n. mt p s' = Some (n, cap) \<Longrightarrow> 0 < n \<and> n \<le> length s'"
  shows "\<exists>p s' n. mt p s' = Some (n, cap) \<and> m = take n s'"
proof -
  from scan_hits [OF assms(1)] obtain p s' n where
    m: "mt p s' = Some (n, cap)" "m = (if n = 0 \<or> s' = [] then [] else take n s')"
    by blast
  from assms(2) [OF m(1)] have "0 < n" "s' \<noteq> []" by auto
  with m show ?thesis by auto
qed

lemma html_hit_shape:
  assumes "Hit m cls \<in> set (scan htmlClassMatch prev content)"
  shows "\<exists>head q. m = head @ cls @ [q] \<and> head \<noteq> [] \<and> isQuote (last head) \<and> isQuote q"
proof -
  have "\<exists>p s' n. htmlClassMatch p s' = Some (n, cls) \<and> m = take n s'"
    using assms
    by (rule scan_hit_take) (simp add: htmlClassMatch_def attrMatch_bounds)
  then obtain p s' n where "attrMatch ''class'' isQuote isQuote s' = Some (n, cls)" "m = take n s'"
    by (auto simp: htmlClassMatch_def)
  with attrMatch_take [of "''class''" isQuote isQuote s' n cls] show ?thesis by auto
qed

lemma js_hit_shape:
  assumes "Hit m cls \<in> set (scan jsClassNameMatch prev content)"
  shows "\<exists>head q. m = head @ cls @ [q] \<and> head \<noteq> [] \<and> isJsxOpen (last head) \<and> isJsxClose q"
proof -
  have "\<exists>p s' n. jsClassNameMatch p s' = Some (n, cls) \<and> m = take n s'"
    using assms
    by (rule scan_hit_take) (simp add: jsClassNameMatch_def attrMatch_bounds)
  then obtain p s' n where "attrMatch ''className'' isJsxOpen isJsxClose s' = Some (n, cls)"
    "m = take n s'"
    by (auto simp: jsClassNameMatch_def)
  with attrMatch_take [of "''className''" isJsxOpen isJsxClose s' n cls] show ?thesis by auto
qed

lemma css_hit_shape:
  assumes "Hit m cls \<in> set (scan cssSelectorMatch prev content)"
  shows "m = ''.'' @ cls"
proof -
  have "\<exists>p s' n. cssSelectorMatch p s' = Some (n, cls) \<and> m = take n s'"
    using assms by (rule scan_hit_take) (simp add: cssSelectorMatch_shape)
  then show ?thesis using cssSelectorMatch_shape by auto
qed

lemma apply_hit_shape:
  assumes "Hit m cls \<in> set (scan applyMatch prev content)"
  shows "prefix ''@apply'' m"
proof -
  have "\<exists>p s' n. applyMatch p s' = Some (n, cls) \<and> m = take n s'"
    using assms by (rule scan_hit_take) (use applyMatch_shape in force)
  then show ?thesis using applyMatch_shape by blast
qed

lemma html_callback_at:
  assumes "indexOf (head @ cls @ [q]) cls = Some (length head)"
    and "CHR ''$'' \<notin> set (rewriteClassString pfx ign cls)"
  shows "htmlCallback pfx ign (head @ cls @ [q]) cls = head @ rewriteClassString pfx ign cls @ [q]"
  unfolding htmlCallback_def by (rule jsReplaceFirst_at [OF assms])

lemma rewrite_unchanged:
  "\<forall>t \<in> set (classTokens cls). addPrefixToClass pfx ign t = t \<Longrightarrow>
   rewriteClassString pfx ign cls = joinSp (classTokens cls)"
  by (simp add: rewriteClassString_def map_idI)

section \<open>Properties of the configuration check\<close>

lemma validateOptions_throws:
  "isl (validateOptions opts) \<longleftrightarrow>
     (truthy (optPrefix opts) \<and> (\<forall>s. optPrefix opts \<noteq> JString s))
     \<or> (\<exists>s. optPrefix opts = JString s \<and> s \<noteq> []
            \<and> (stripTrailingHyphen s = [] \<or> (\<exists>c \<in> set (stripTrailingHyphen s). \<not> isWordCh c)))
     \<or> (truthy (optSourceDir opts) \<and> (\<forall>s. optSourceDir opts \<noteq> JString s))
     \<or> (truthy (optLogLevel opts)
         \<and> (\<forall>l \<in> set logLevels. optLogLevel opts \<noteq> JString l))"
proof -
  have s: "isString v \<longleftrightarrow> (\<exists>s. v = JString s)" for v by (cases v) auto
  show ?thesis
    unfolding validateOptions_def
    by (cases "optPrefix opts")
       (auto simp: s isWordString_def list_all_iff)
qed

lemma constructBot_throws: "isl (constructBot opts) = isl (validateOptions opts)"
  by (cases "validateOptions opts") (simp_all add: constructBot_def)

lemma set_butlast_last: "s \<noteq> [] \<Longrightarrow> set s = insert (last s) (set (butlast s))"
  by (cases s rule: rev_cases) auto

lemma default_prefix_word: "\<forall>c \<in> set ''tw-''. isWordCh c"
  by (simp add: isWordCh_def isLower_def)

lemma constructBot_prefix:
  assumes "constructBot opts = Inr pfx"
  shows "pfx \<noteq> [] \<and> (\<forall>c \<in> set pfx. isWordCh c)"
proof -
  have v: "validateOptions opts = Inr ()"
    using assms by (cases "validateOptions opts") (simp_all add: constructBot_def)
  have p: "pfx = (case optPrefix opts of JString s \<Rightarrow> if s = [] then ''tw-'' else s | _ \<Rightarrow> ''tw-'')"
    using assms by (simp add: constructBot_def v)
  show ?thesis
  proof (cases "\<exists>s. optPrefix opts = JString s \<and> s \<noteq> []")
    case False
    then have "pfx = ''tw-''" using p by (cases "optPrefix opts") auto
    with default_prefix_word show ?thesis by simp
  next
    case True
    then obtain s where s: "optPrefix opts = JString s" "s \<noteq> []" by blast
    with p have ps: "pfx = s" by simp
    have w: "isWordString (stripTrailingHyphen s)"
    proof (rule ccontr)
      assume "\<not> isWordString (stripTrailingHyphen s)"
      with s have "validateOptions opts = Inl PrefixBadCharacters"
        by (simp add: validateOptions_def)
      with v show False by simp
    qed
    then have a: "\<forall>c \<in> set (stripTrailingHyphen s). isWordCh c"
      by (simp add: isWordString_def list_all_iff)
    have "\<forall>c \<in> set s. isWordCh c"
    proof (cases "last s = CHR ''-''")
      case True
      with s(2) have "stripTrailingHyphen s = butlast s" by (simp add: stripTrailingHyphen_def)
      moreover have "isWordCh (last s)" using True by (simp add: isWordCh_def)
      ultimately show ?thesis using a set_butlast_last [OF s(2)] by auto
    next
      case False
      then have "stripTrailingHyphen s = s" by (simp add: stripTrailingHyphen_def)
      with a show ?thesis by simp
    qed
    with ps s(2) show ?thesis by simp
  qed
qed

lemma constructBot_default:
  assumes "\<not> truthy (optPrefix opts)" and "constructBot opts = Inr p"
  shows "p = ''tw-''"
proof -
  have v: "validateOptions opts = Inr ()"
    using assms(2) by (cases "validateOptions opts") (simp_all add: constructBot_def)
  show ?thesis
    using assms by (cases "optPrefix opts") (simp_all add: constructBot_def v)
qed

section \<open>Properties of the extractors and of the configuration\<close>

text \<open>
  C5. Stylesheet selector path: for every occurrence in the text of a dot that stands at
  the start of the text or after a line terminator, white space, a comma or an opening
  brace, and is followed by a maximal non-empty run \<open>c\<close> of characters of
  \<open>[A-Za-z0-9_-]\<close>, \<open>processCssSelectors\<close> leaves the dot and \<open>c\<close> as they are when \<open>c\<close>
  is an ignored class or starts with the prefix, and otherwise puts the prefix between the
  dot and \<open>c\<close>; the text before and the text after are processed on their own. The
  classifier is not consulted: a camel-case selector, which the rewriter leaves alone, gets
  the prefix.
\<close>

theorem css_selector_path:
  assumes "pre = [] \<or> isLineTerm (last pre) \<or> isSpace (last pre) \<or> last pre = CHR '',''
           \<or> last pre = CHR ''{''"
    and "c \<noteq> []" and "\<forall>x \<in> set c. isWordCh x" and "post = [] \<or> \<not> isWordCh (hd post)"
  shows "processCssSelectors pfx ign (pre @ ''.'' @ c @ post) =
           processCssSelectors pfx ign pre
           @ (if c \<in> set ign \<or> prefix pfx c then ''.'' @ c else ''.'' @ pfx @ c)
           @ replaceFrom cssSelectorMatch (cssCallback pfx ign) (Some (last c)) post
         \<and> processCssSelectors ''tw-'' defaultIgnoreClasses ''.myCustomClass{}'' =
             ''.tw-myCustomClass{}''
         \<and> addPrefixToClass ''tw-'' defaultIgnoreClasses ''myCustomClass'' = ''myCustomClass''"
proof (intro conjI)
  show "processCssSelectors pfx ign (pre @ ''.'' @ c @ post) =
      processCssSelectors pfx ign pre
      @ (if c \<in> set ign \<or> prefix pfx c then ''.'' @ c else ''.'' @ pfx @ c)
      @ replaceFrom cssSelectorMatch (cssCallback pfx ign) (Some (last c)) post"
    by (rule css_occurrence [OF assms])
next
  show "processCssSelectors ''tw-'' defaultIgnoreClasses ''.myCustomClass{}'' =
      ''.tw-myCustomClass{}''"
    by code_simp
next
  show "addPrefixToClass ''tw-'' defaultIgnoreClasses ''myCustomClass'' = ''myCustomClass''"
    by code_simp
qed

theorem css_selector_path_witness:
  "processCssSelectors ''tw-'' defaultIgnoreClasses ''h1, .btn:hover, .swiper{}'' =
     ''h1, .tw-btn:hover, .swiper{}''"
proof -
  have a: "''h1, '' = [] \<or> isLineTerm (last ''h1, '') \<or> isSpace (last ''h1, '')
      \<or> last ''h1, '' = CHR '','' \<or> last ''h1, '' = CHR ''{''"
    by (simp add: isSpace_def)
  have b: "''btn'' \<noteq> []" by simp
  have c: "\<forall>x \<in> set ''btn''. isWordCh x" by (simp add: isWordCh_def isLower_def)
  have d: "'':hover, .swiper{}'' = [] \<or> \<not> isWordCh (hd '':hover, .swiper{}'')"
    by (simp add: isWordCh_def isLower_def isUpper_def isDigit_def)
  have e: "processCssSelectors ''tw-'' defaultIgnoreClasses ''h1, '' = ''h1, ''"
    by code_simp
  have f: "replaceFrom cssSelectorMatch (cssCallback ''tw-'' defaultIgnoreClasses)
      (Some (last ''btn'')) '':hover, .swiper{}'' = '':hover, .swiper{}''"
    by code_simp
  have g: "\<not> (''btn'' \<in> set defaultIgnoreClasses \<or> prefix ''tw-'' ''btn'')"
    by code_simp
  from css_selector_path [OF a b c d, of "''tw-''" defaultIgnoreClasses]
  have "processCssSelectors ''tw-'' defaultIgnoreClasses (''h1, '' @ ''.'' @ ''btn'' @ '':hover, .swiper{}'') =
      processCssSelectors ''tw-'' defaultIgnoreClasses ''h1, ''
      @ (if ''btn'' \<in> set defaultIgnoreClasses \<or> prefix ''tw-'' ''btn'' then ''.'' @ ''btn''
         else ''.'' @ ''tw-'' @ ''btn'')
      @ replaceFrom cssSelectorMatch (cssCallback ''tw-'' defaultIgnoreClasses)
          (Some (last ''btn'')) '':hover, .swiper{}''"
    by blast
  then show ?thesis unfolding e f using g by simp
qed

text \<open>
  C6. \<open>@apply\<close> directives: in a matched region every white-space separated token of the
  class list goes through the rewriter unless it holds a brace, in which case it is kept;
  the region is replaced by \<open>@apply\<close>, a space, the tokens joined by single spaces, and a
  semicolon; afterwards every run of semicolons is collapsed to one, so the result holds
  no two semicolons in a row. In particular \<open>@apply flex items-center;\<close> with the prefix
  \<open>tw-\<close> becomes \<open>@apply tw-flex tw-items-center;\<close>.
\<close>

theorem apply_directive:
  "(applyMatch prev s = Some (n, classString) \<longrightarrow>
      replaceFrom applyMatch (applyCallback pfx ign) prev s =
        ''@apply ''
        @ joinSp (map (\<lambda>className. if hasBrace className then className
                                    else addPrefixToClass pfx ign className)
                   (classTokens classString))
        @ '';''
        @ replaceFrom applyMatch (applyCallback pfx ign) (Some (last (take n s))) (drop n s))
   \<and> processApplyDirectives pfx ign content =
       collapseSemicolons (replaceAll applyMatch (applyCallback pfx ign) content)
   \<and> \<not> strIncludes (processApplyDirectives pfx ign content) '';;''
   \<and> processApplyDirectives ''tw-'' defaultIgnoreClasses ''@apply flex items-center;'' =
       ''@apply tw-flex tw-items-center;''"
proof (intro conjI impI)
  assume "applyMatch prev s = Some (n, classString)"
  then show "replaceFrom applyMatch (applyCallback pfx ign) prev s =
      ''@apply ''
      @ joinSp (map (\<lambda>className. if hasBrace className then className
                                  else addPrefixToClass pfx ign className)
                 (classTokens classString))
      @ '';''
      @ replaceFrom applyMatch (applyCallback pfx ign) (Some (last (take n s))) (drop n s)"
    by (rule apply_at)
next
  show "processApplyDirectives pfx ign content =
      collapseSemicolons (replaceAll applyMatch (applyCallback pfx ign) content)"
    by (simp add: processApplyDirectives_def)
next
  show "\<not> strIncludes (processApplyDirectives pfx ign content) '';;''"
    unfolding processApplyDirectives_def by (rule collapse_no_double)
next
  show "processApplyDirectives ''tw-'' defaultIgnoreClasses ''@apply flex items-center;'' =
      ''@apply tw-flex tw-items-center;''"
    by code_simp
qed

theorem apply_directive_witness:
  "replaceFrom applyMatch (applyCallback ''tw-'' defaultIgnoreClasses) None
     ''@apply  p-4 myCard;;}'' = ''@apply tw-p-4 myCard;;}''
   \<and> processApplyDirectives ''tw-'' defaultIgnoreClasses ''@apply  p-4 myCard;;}'' =
       ''@apply tw-p-4 myCard;}''"
proof -
  have m: "applyMatch None ''@apply  p-4 myCard;;}'' = Some (19, ''p-4 myCard'')"
    by code_simp
  have j: "joinSp (map (\<lambda>className. if hasBrace className then className
                            else addPrefixToClass ''tw-'' defaultIgnoreClasses className)
             (classTokens ''p-4 myCard'')) = ''tw-p-4 myCard''"
    by code_simp
  have r: "replaceFrom applyMatch (applyCallback ''tw-'' defaultIgnoreClasses)
      (Some (last (take 19 ''@apply  p-4 myCard;;}''))) (drop 19 ''@apply  p-4 myCard;;}'') = '';}''"
    by code_simp
  note t = apply_directive [of None "''@apply  p-4 myCard;;}''" 19 "''p-4 myCard''" "''tw-''"
      defaultIgnoreClasses "''@apply  p-4 myCard;;}''"]
  from t m have a: "replaceFrom applyMatch (applyCallback ''tw-'' defaultIgnoreClasses) None
       ''@apply  p-4 myCard;;}'' =
      ''@apply ''
      @ joinSp (map (\<lambda>className. if hasBrace className then className
                            else addPrefixToClass ''tw-'' defaultIgnoreClasses className)
             (classTokens ''p-4 myCard''))
      @ '';''
      @ replaceFrom applyMatch (applyCallback ''tw-'' defaultIgnoreClasses)
          (Some (last (take 19 ''@apply  p-4 myCard;;}''))) (drop 19 ''@apply  p-4 myCard;;}'')"
    by blast
  from t have b: "processApplyDirectives ''tw-'' defaultIgnoreClasses ''@apply  p-4 myCard;;}'' =
      collapseSemicolons (replaceAll applyMatch (applyCallback ''tw-'' defaultIgnoreClasses)
        ''@apply  p-4 myCard;;}'')"
    by blast
  have a': "replaceFrom applyMatch (applyCallback ''tw-'' defaultIgnoreClasses) None
     ''@apply  p-4 myCard;;}'' = ''@apply tw-p-4 myCard;;}''"
    unfolding a j r by simp
  have c: "collapseSemicolons ''@apply tw-p-4 myCard;;}'' = ''@apply tw-p-4 myCard;}''"
    by code_simp
  from a' b c show ?thesis by (simp add: replaceAll_def)
qed

text \<open>
  C7. Script extractor refusal: when the value captured by a match of the \<open>className\<close>
  pattern holds \<open>${\<close> or \<open>?\<close>, the callback returns the match itself, so the matched
  region stands unchanged in the output and the scan goes on after it.
\<close>

theorem script_refusal:
  "(jsClassNameMatch prev s = Some (n, classString)
      \<and> (strIncludes classString ''${'' \<or> strIncludes classString ''?'') \<longrightarrow>
      replaceFrom jsClassNameMatch (jsCallback pfx ign) prev s =
        take n s
        @ replaceFrom jsClassNameMatch (jsCallback pfx ign) (Some (last (take n s))) (drop n s))
   \<and> processJsClasses pfx ign content =
       concat (map (render (jsCallback pfx ign)) (scan jsClassNameMatch None content))
   \<and> (Hit m classString \<in> set (scan jsClassNameMatch None content)
      \<and> (strIncludes classString ''${'' \<or> strIncludes classString ''?'') \<longrightarrow>
      render (jsCallback pfx ign) (Hit m classString) = m)"
proof (intro conjI impI)
  assume "jsClassNameMatch prev s = Some (n, classString)
      \<and> (strIncludes classString ''${'' \<or> strIncludes classString ''?'')"
  then show "replaceFrom jsClassNameMatch (jsCallback pfx ign) prev s =
      take n s
      @ replaceFrom jsClassNameMatch (jsCallback pfx ign) (Some (last (take n s))) (drop n s)"
    using js_refusal_at by blast
next
  show "processJsClasses pfx ign content =
      concat (map (render (jsCallback pfx ign)) (scan jsClassNameMatch None content))"
    by (simp add: processJsClasses_def replaceAll_def replaceFrom_def)
next
  assume "Hit m classString \<in> set (scan jsClassNameMatch None content)
      \<and> (strIncludes classString ''${'' \<or> strIncludes classString ''?'')"
  then show "render (jsCallback pfx ign) (Hit m classString) = m"
    by (simp add: jsCallback_def)
qed

theorem script_refusal_witness:
  "replaceFrom jsClassNameMatch (jsCallback ''tw-'' defaultIgnoreClasses) (Some CHR '' '')
     (''className='' @ dq @ ''flex  ?x'' @ dq @ ''/>'') =
     (''className='' @ dq @ ''flex  ?x'' @ dq) @ ''/>''
   \<and> render (jsCallback ''tw-'' defaultIgnoreClasses)
       (Hit (''className='' @ dq @ ''flex  ?x'' @ dq) ''flex  ?x'') =
       ''className='' @ dq @ ''flex  ?x'' @ dq"
proof -
  let ?s = "''className='' @ dq @ ''flex  ?x'' @ dq @ ''/>''"
  let ?c = "''<i '' @ ?s"
  let ?m = "''className='' @ dq @ ''flex  ?x'' @ dq"
  have m: "jsClassNameMatch (Some CHR '' '') ?s = Some (20, ''flex  ?x'')" by code_simp
  have q: "strIncludes ''flex  ?x'' ''${'' \<or> strIncludes ''flex  ?x'' ''?''" by code_simp
  have h: "Hit ?m ''flex  ?x'' \<in> set (scan jsClassNameMatch None ?c)" by code_simp
  have t: "take 20 ?s = ?m" by (simp add: dq_def)
  have r: "replaceFrom jsClassNameMatch (jsCallback ''tw-'' defaultIgnoreClasses)
      (Some (last ?m)) (drop 20 ?s) = ''/>''"
    by code_simp
  note th = script_refusal [of "Some CHR '' ''" ?s 20 "''flex  ?x''" "''tw-''" defaultIgnoreClasses
      ?c ?m]
  from th m q have "replaceFrom jsClassNameMatch (jsCallback ''tw-'' defaultIgnoreClasses)
      (Some CHR '' '') ?s =
      take 20 ?s @ replaceFrom jsClassNameMatch (jsCallback ''tw-'' defaultIgnoreClasses)
        (Some (last (take 20 ?s))) (drop 20 ?s)"
    by blast
  then have a: "replaceFrom jsClassNameMatch (jsCallback ''tw-'' defaultIgnoreClasses)
      (Some CHR '' '') ?s = ?m @ ''/>''"
    by (simp only: r t)
  from th h q have b: "render (jsCallback ''tw-'' defaultIgnoreClasses) (Hit ?m ''flex  ?x'') = ?m"
    by blast
  from a b show ?thesis by blast
qed


lemma html_at:
  assumes "htmlClassMatch prev s = Some (n, cls)" and "take n s = head @ cls @ [q]"
    and "indexOf (take n s) cls = Some (length head)"
    and "CHR ''$'' \<notin> set (rewriteClassString pfx ign cls)"
  shows "replaceFrom htmlClassMatch (htmlCallback pfx ign) prev s =
     head @ joinSp (map (addPrefixToClass pfx ign) (classTokens cls)) @ [q]
     @ replaceFrom htmlClassMatch (htmlCallback pfx ign) (Some q) (drop n s)"
proof -
  from assms(1) have b: "0 < n" "n \<le> length s"
    using attrMatch_bounds [of "''class''" isQuote isQuote s n cls]
    by (simp_all add: htmlClassMatch_def)
  have c: "htmlCallback pfx ign (take n s) cls = head @ rewriteClassString pfx ign cls @ [q]"
    using html_callback_at [of head cls q pfx ign] assms(2,3,4) by simp
  have l: "last (take n s) = q" using assms(2) by simp
  have "replaceFrom htmlClassMatch (htmlCallback pfx ign) prev s =
      htmlCallback pfx ign (take n s) cls
      @ replaceFrom htmlClassMatch (htmlCallback pfx ign) (Some (last (take n s))) (drop n s)"
    using replaceFrom_Hit [of htmlClassMatch prev s n cls "htmlCallback pfx ign"] assms(1) b
    by blast
  then show ?thesis unfolding c l by (simp add: rewriteClassString_def)
qed

lemma js_at:
  assumes "jsClassNameMatch prev s = Some (n, cls)" and "take n s = head @ cls @ [q]"
    and "\<not> strIncludes cls ''${''" and "\<not> strIncludes cls ''?''"
    and "indexOf (take n s) cls = Some (length head)"
    and "CHR ''$'' \<notin> set (rewriteClassString pfx ign cls)"
  shows "replaceFrom jsClassNameMatch (jsCallback pfx ign) prev s =
     head @ joinSp (map (addPrefixToClass pfx ign) (classTokens cls)) @ [q]
     @ replaceFrom jsClassNameMatch (jsCallback pfx ign) (Some q) (drop n s)"
proof -
  from assms(1) have b: "0 < n" "n \<le> length s"
    using attrMatch_bounds [of "''className''" isJsxOpen isJsxClose s n cls]
    by (simp_all add: jsClassNameMatch_def)
  have "jsCallback pfx ign (take n s) cls = htmlCallback pfx ign (take n s) cls"
    using assms(3,4) by (simp add: jsCallback_def htmlCallback_def)
  then have c: "jsCallback pfx ign (take n s) cls = head @ rewriteClassString pfx ign cls @ [q]"
    using html_callback_at [of head cls q pfx ign] assms(2,5,6) by simp
  have l: "last (take n s) = q" using assms(2) by simp
  have "replaceFrom jsClassNameMatch (jsCallback pfx ign) prev s =
      jsCallback pfx ign (take n s) cls
      @ replaceFrom jsClassNameMatch (jsCallback pfx ign) (Some (last (take n s))) (drop n s)"
    using replaceFrom_Hit [of jsClassNameMatch prev s n cls "jsCallback pfx ign"] assms(1) b
    by blast
  then show ?thesis unfolding c l by (simp add: rewriteClassString_def)
qed

lemma processApply_segments:
  "processApplyDirectives pfx ign content =
     collapseSemicolons (concat (map (render (applyCallback pfx ign)) (scan applyMatch None content)))"
  by (simp add: processApplyDirectives_def replaceAll_def replaceFrom_def)

lemma cssCallback_cases:
  "cssCallback pfx ign (''.'' @ cls) cls = ''.'' @ cls
   \<or> cssCallback pfx ign (''.'' @ cls) cls = ''.'' @ pfx @ cls"
  by (simp add: cssCallback_def)

lemma jsCallback_at:
  assumes "indexOf (head @ cls @ [q]) cls = Some (length head)"
    and "CHR ''$'' \<notin> set (rewriteClassString pfx ign cls)"
  shows "jsCallback pfx ign (head @ cls @ [q]) cls = head @ rewriteClassString pfx ign cls @ [q]
         \<or> jsCallback pfx ign (head @ cls @ [q]) cls = head @ cls @ [q]"
  using html_callback_at [OF assms] by (simp add: jsCallback_def htmlCallback_def)

text \<open>
  C4 (as amended). Frame property of the extractors: each extractor cuts the text into the
  characters it keeps and the regions its pattern matches, and its output is the same
  sequence with every kept character as it was and every region replaced by what the
  callback returns for it; \<open>processApplyDirectives\<close> then collapses every run of
  semicolons of the whole text. Within a region, a selector keeps its dot and an
  \<open>@apply\<close> region keeps its keyword; a region of a class attribute is the text up to
  the opening quote, the value and the closing quote, and when the first occurrence of
  the value in the region is the captured one and the rewritten value holds no \<open>$\<close>,
  the text before and after the value is unchanged.
\<close>

theorem extractor_frame:
  "content = concat (map segSource (scan htmlClassMatch None content))
   \<and> processHtmlClasses pfx ign content =
       concat (map (render (htmlCallback pfx ign)) (scan htmlClassMatch None content))
   \<and> content = concat (map segSource (scan jsClassNameMatch None content))
   \<and> processJsClasses pfx ign content =
       concat (map (render (jsCallback pfx ign)) (scan jsClassNameMatch None content))
   \<and> content = concat (map segSource (scan cssSelectorMatch None content))
   \<and> processCssSelectors pfx ign content =
       concat (map (render (cssCallback pfx ign)) (scan cssSelectorMatch None content))
   \<and> content = concat (map segSource (scan applyMatch None content))
   \<and> processApplyDirectives pfx ign content =
       collapseSemicolons
         (concat (map (render (applyCallback pfx ign)) (scan applyMatch None content)))
   \<and> (Hit m cls \<in> set (scan cssSelectorMatch None content) \<longrightarrow>
        m = ''.'' @ cls
        \<and> (cssCallback pfx ign m cls = ''.'' @ cls \<or> cssCallback pfx ign m cls = ''.'' @ pfx @ cls))
   \<and> (Hit m cls \<in> set (scan applyMatch None content) \<longrightarrow>
        prefix ''@apply'' m \<and> prefix ''@apply'' (applyCallback pfx ign m cls))
   \<and> (Hit m cls \<in> set (scan htmlClassMatch None content) \<longrightarrow>
        (\<exists>head q. m = head @ cls @ [q] \<and> head \<noteq> [] \<and> isQuote (last head) \<and> isQuote q))
   \<and> (Hit m cls \<in> set (scan jsClassNameMatch None content) \<longrightarrow>
        (\<exists>head q. m = head @ cls @ [q] \<and> head \<noteq> [] \<and> isJsxOpen (last head) \<and> isJsxClose q))
   \<and> (indexOf (head @ cls @ [q]) cls = Some (length head)
        \<and> CHR ''$'' \<notin> set (rewriteClassString pfx ign cls) \<longrightarrow>
        htmlCallback pfx ign (head @ cls @ [q]) cls = head @ rewriteClassString pfx ign cls @ [q]
        \<and> (jsCallback pfx ign (head @ cls @ [q]) cls = head @ rewriteClassString pfx ign cls @ [q]
           \<or> jsCallback pfx ign (head @ cls @ [q]) cls = head @ cls @ [q]))"
proof (intro conjI impI)
  assume "Hit m cls \<in> set (scan cssSelectorMatch None content)"
  then show "m = ''.'' @ cls" by (rule css_hit_shape)
  then show "cssCallback pfx ign m cls = ''.'' @ cls \<or> cssCallback pfx ign m cls = ''.'' @ pfx @ cls"
    using cssCallback_cases [of pfx ign cls] by simp
next
  assume "Hit m cls \<in> set (scan applyMatch None content)"
  then show "prefix ''@apply'' m" by (rule apply_hit_shape)
next
  show "prefix ''@apply'' (applyCallback pfx ign m cls)"
    by (simp add: applyCallback_def)
next
  assume "Hit m cls \<in> set (scan htmlClassMatch None content)"
  then show "\<exists>head q. m = head @ cls @ [q] \<and> head \<noteq> [] \<and> isQuote (last head) \<and> isQuote q"
    by (rule html_hit_shape)
next
  assume "Hit m cls \<in> set (scan jsClassNameMatch None content)"
  then show "\<exists>head q. m = head @ cls @ [q] \<and> head \<noteq> [] \<and> isJsxOpen (last head) \<and> isJsxClose q"
    by (rule js_hit_shape)
next
  assume a: "indexOf (head @ cls @ [q]) cls = Some (length head)
      \<and> CHR ''$'' \<notin> set (rewriteClassString pfx ign cls)"
  then show "htmlCallback pfx ign (head @ cls @ [q]) cls = head @ rewriteClassString pfx ign cls @ [q]"
    using html_callback_at by blast
  from a show "jsCallback pfx ign (head @ cls @ [q]) cls = head @ rewriteClassString pfx ign cls @ [q]
      \<or> jsCallback pfx ign (head @ cls @ [q]) cls = head @ cls @ [q]"
    using jsCallback_at by blast
qed (simp_all add: scan_source processApply_segments processHtmlClasses_def processJsClasses_def
      processCssSelectors_def replaceAll_def replaceFrom_def)

theorem extractor_frame_counterexample:
  "scan applyMatch None ''a{b:c;;}'' = map Keep ''a{b:c;;}''
   \<and> processApplyDirectives ''tw-'' defaultIgnoreClasses ''a{b:c;;}'' = ''a{b:c;}''"
  by code_simp

theorem extractor_frame_witness:
  "htmlCallback ''tw-'' defaultIgnoreClasses
     ((''class='' @ dq) @ ''flex  myCard'' @ [CHR 0x22]) ''flex  myCard'' =
     (''class='' @ dq) @ ''tw-flex myCard'' @ [CHR 0x22]
   \<and> cssCallback ''tw-'' defaultIgnoreClasses ''.btn'' ''btn'' = ''.'' @ ''tw-'' @ ''btn''
   \<and> prefix ''@apply'' (applyCallback ''tw-'' defaultIgnoreClasses ''@apply flex;'' ''flex'')
   \<and> (\<exists>head q. (''class='' @ dq) @ ''flex  myCard'' @ [CHR 0x22] = head @ ''flex  myCard'' @ [q]
         \<and> head \<noteq> [] \<and> isQuote (last head) \<and> isQuote q)
   \<and> (\<exists>head q. ''className={p-4}'' = head @ ''p-4'' @ [q]
         \<and> head \<noteq> [] \<and> isJsxOpen (last head) \<and> isJsxClose q)"
proof -
  let ?m = "(''class='' @ dq) @ ''flex  myCard'' @ [CHR 0x22]"
  have i: "indexOf ?m ''flex  myCard'' = Some (length (''class='' @ dq))"
    by code_simp
  have r: "rewriteClassString ''tw-'' defaultIgnoreClasses ''flex  myCard'' = ''tw-flex myCard''"
    by code_simp
  have d: "CHR ''$'' \<notin> set (rewriteClassString ''tw-'' defaultIgnoreClasses ''flex  myCard'')"
    unfolding r by simp
  have h: "Hit ''.btn'' ''btn'' \<in> set (scan cssSelectorMatch None ''a, .btn{}'')"
    by code_simp
  have g: "Hit ''@apply flex;'' ''flex'' \<in> set (scan applyMatch None ''a{@apply flex;}'')"
    by code_simp
  have k: "Hit ?m ''flex  myCard'' \<in> set (scan htmlClassMatch None (''<p '' @ ?m @ ''>''))"
    by code_simp
  have l: "Hit ''className={p-4}'' ''p-4'' \<in> set (scan jsClassNameMatch None ''<p className={p-4}>'')"
    by code_simp
  have n: "cssCallback ''tw-'' defaultIgnoreClasses ''.btn'' ''btn'' \<noteq> ''.'' @ ''btn''"
    by code_simp
  note t1 = extractor_frame [of "''a, .btn{}''" "''tw-''" defaultIgnoreClasses "''.btn''" "''btn''"
      "''class='' @ dq" "CHR 0x22"]
  note t2 = extractor_frame [of "''a{@apply flex;}''" "''tw-''" defaultIgnoreClasses "''@apply flex;''"
      "''flex''" "''class='' @ dq" "CHR 0x22"]
  note t3 = extractor_frame [of "''<p '' @ ?m @ ''>''" "''tw-''" defaultIgnoreClasses ?m
      "''flex  myCard''" "''class='' @ dq" "CHR 0x22"]
  note t4 = extractor_frame [of "''<p className={p-4}>''" "''tw-''" defaultIgnoreClasses
      "''className={p-4}''" "''p-4''" "''class='' @ dq" "CHR 0x22"]
  from t3 i d have a: "htmlCallback ''tw-'' defaultIgnoreClasses ?m ''flex  myCard'' =
      (''class='' @ dq) @ rewriteClassString ''tw-'' defaultIgnoreClasses ''flex  myCard'' @ [CHR 0x22]"
    by blast
  from t1 h n have b: "cssCallback ''tw-'' defaultIgnoreClasses ''.btn'' ''btn'' = ''.'' @ ''tw-'' @ ''btn''"
    by blast
  from t2 g have c: "prefix ''@apply'' (applyCallback ''tw-'' defaultIgnoreClasses ''@apply flex;'' ''flex'')"
    by blast
  from t3 k have e: "\<exists>head q. ?m = head @ ''flex  myCard'' @ [q]
      \<and> head \<noteq> [] \<and> isQuote (last head) \<and> isQuote q"
    by blast
  from t4 l have f: "\<exists>head q. ''className={p-4}'' = head @ ''p-4'' @ [q]
      \<and> head \<noteq> [] \<and> isJsxOpen (last head) \<and> isJsxClose q"
    by blast
  from a [unfolded r] b c e f show ?thesis by blast
qed

text \<open>
  C10 (as amended). Implicit white-space normalisation: for a matched \<open>class\<close> attribute,
  and for a matched \<open>className\<close> attribute whose value holds neither \<open>${\<close> nor \<open>?\<close>,
  when the first occurrence of the value in the match is the captured one and the
  rewritten value holds no \<open>$\<close>, the value in the output is the white-space separated
  tokens, each through the rewriter, joined by single spaces, which is the plain tokens
  joined by single spaces when the rewriter changes none of them. So there are texts in
  which no token is rewritten (the count of changed classes is zero) and which
  \<open>processHtmlClasses\<close> changes nevertheless.
\<close>

theorem whitespace_normalization:
  "(htmlClassMatch prev s = Some (n, cls) \<and> take n s = head @ cls @ [q]
      \<and> indexOf (take n s) cls = Some (length head)
      \<and> CHR ''$'' \<notin> set (rewriteClassString pfx ign cls) \<longrightarrow>
      replaceFrom htmlClassMatch (htmlCallback pfx ign) prev s =
        head @ joinSp (map (addPrefixToClass pfx ign) (classTokens cls)) @ [q]
        @ replaceFrom htmlClassMatch (htmlCallback pfx ign) (Some q) (drop n s))
   \<and> (jsClassNameMatch prev s = Some (n, cls) \<and> take n s = head @ cls @ [q]
      \<and> strIncludes cls ''${'' = False \<and> strIncludes cls ''?'' = False
      \<and> indexOf (take n s) cls = Some (length head)
      \<and> CHR ''$'' \<notin> set (rewriteClassString pfx ign cls) \<longrightarrow>
      replaceFrom jsClassNameMatch (jsCallback pfx ign) prev s =
        head @ joinSp (map (addPrefixToClass pfx ign) (classTokens cls)) @ [q]
        @ replaceFrom jsClassNameMatch (jsCallback pfx ign) (Some q) (drop n s))
   \<and> ((\<forall>t \<in> set (classTokens cls). addPrefixToClass pfx ign t = t) \<longrightarrow>
        joinSp (map (addPrefixToClass pfx ign) (classTokens cls)) = joinSp (classTokens cls))
   \<and> htmlChangeCount ''tw-'' defaultIgnoreClasses
        (''<p class='' @ dq @ '' tw-flex  myCard '' @ dq @ ''>'') = 0
   \<and> processHtmlClasses ''tw-'' defaultIgnoreClasses
        (''<p class='' @ dq @ '' tw-flex  myCard '' @ dq @ ''>'') =
       ''<p class='' @ dq @ ''tw-flex myCard'' @ dq @ ''>''
   \<and> ''<p class='' @ dq @ ''tw-flex myCard'' @ dq @ ''>'' \<noteq>
       ''<p class='' @ dq @ '' tw-flex  myCard '' @ dq @ ''>''"
proof (intro conjI impI)
  assume "htmlClassMatch prev s = Some (n, cls) \<and> take n s = head @ cls @ [q]
      \<and> indexOf (take n s) cls = Some (length head)
      \<and> CHR ''$'' \<notin> set (rewriteClassString pfx ign cls)"
  then show "replaceFrom htmlClassMatch (htmlCallback pfx ign) prev s =
      head @ joinSp (map (addPrefixToClass pfx ign) (classTokens cls)) @ [q]
      @ replaceFrom htmlClassMatch (htmlCallback pfx ign) (Some q) (drop n s)"
    using html_at by blast
next
  assume "jsClassNameMatch prev s = Some (n, cls) \<and> take n s = head @ cls @ [q]
      \<and> strIncludes cls ''${'' = False \<and> strIncludes cls ''?'' = False
      \<and> indexOf (take n s) cls = Some (length head)
      \<and> CHR ''$'' \<notin> set (rewriteClassString pfx ign cls)"
  then show "replaceFrom jsClassNameMatch (jsCallback pfx ign) prev s =
      head @ joinSp (map (addPrefixToClass pfx ign) (classTokens cls)) @ [q]
      @ replaceFrom jsClassNameMatch (jsCallback pfx ign) (Some q) (drop n s)"
    using js_at by blast
next
  assume "\<forall>t \<in> set (classTokens cls). addPrefixToClass pfx ign t = t"
  then show "joinSp (map (addPrefixToClass pfx ign) (classTokens cls)) = joinSp (classTokens cls)"
    using rewrite_unchanged by (simp add: rewriteClassString_def)
next
  show "htmlChangeCount ''tw-'' defaultIgnoreClasses
      (''<p class='' @ dq @ '' tw-flex  myCard '' @ dq @ ''>'') = 0"
    by code_simp
next
  show "processHtmlClasses ''tw-'' defaultIgnoreClasses
      (''<p class='' @ dq @ '' tw-flex  myCard '' @ dq @ ''>'') =
      ''<p class='' @ dq @ ''tw-flex myCard'' @ dq @ ''>''"
    by code_simp
next
  show "''<p class='' @ dq @ ''tw-flex myCard'' @ dq @ ''>'' \<noteq>
      ''<p class='' @ dq @ '' tw-flex  myCard '' @ dq @ ''>''"
    by (simp add: dq_def)
qed

theorem whitespace_normalization_counterexample:
  "jsClassNameMatch None (''className='' @ dq @ ''flex  ?x'' @ dq) = Some (20, ''flex  ?x'')
   \<and> processJsClasses ''tw-'' defaultIgnoreClasses (''className='' @ dq @ ''flex  ?x'' @ dq) =
       ''className='' @ dq @ ''flex  ?x'' @ dq
   \<and> joinSp (classTokens ''flex  ?x'') = ''flex ?x''
   \<and> rewriteClassString ''tw-'' defaultIgnoreClasses ''flex  ?x'' = ''tw-flex tw-?x''"
  by code_simp

theorem whitespace_normalization_witness:
  "replaceFrom htmlClassMatch (htmlCallback ''tw-'' defaultIgnoreClasses) (Some CHR '' '')
     (''class='' @ dq @ ''a  myCard'' @ dq @ ''>'') = ''class='' @ dq @ ''a myCard'' @ dq @ ''>''
   \<and> replaceFrom jsClassNameMatch (jsCallback ''tw-'' defaultIgnoreClasses) (Some CHR '' '')
     (''className='' @ dq @ ''a  myCard'' @ dq @ ''>'') = ''className='' @ dq @ ''a myCard'' @ dq @ ''>''"
proof -
  let ?v = "''a  myCard''"
  let ?h = "''class='' @ dq @ ?v @ dq @ ''>''"
  let ?j = "''className='' @ dq @ ?v @ dq @ ''>''"
  have hm: "htmlClassMatch (Some CHR '' '') ?h = Some (17, ?v)" by code_simp
  have jm: "jsClassNameMatch (Some CHR '' '') ?j = Some (21, ?v)" by code_simp
  have ht: "take 17 ?h = (''class='' @ dq) @ ?v @ [CHR 0x22]" by (simp add: dq_def)
  have jt: "take 21 ?j = (''className='' @ dq) @ ?v @ [CHR 0x22]" by (simp add: dq_def)
  have hi: "indexOf (take 17 ?h) ?v = Some (length (''class='' @ dq))" by code_simp
  have ji: "indexOf (take 21 ?j) ?v = Some (length (''className='' @ dq))" by code_simp
  have r: "rewriteClassString ''tw-'' defaultIgnoreClasses ?v = ''a myCard''" by code_simp
  have d: "CHR ''$'' \<notin> set (rewriteClassString ''tw-'' defaultIgnoreClasses ?v)"
    unfolding r by simp
  have u: "\<forall>t \<in> set (classTokens ?v). addPrefixToClass ''tw-'' defaultIgnoreClasses t = t"
    by code_simp
  have n: "strIncludes ?v ''${'' = False" "strIncludes ?v ''?'' = False" by code_simp+
  have k: "joinSp (classTokens ?v) = ''a myCard''" by code_simp
  have hr: "replaceFrom htmlClassMatch (htmlCallback ''tw-'' defaultIgnoreClasses)
      (Some CHR 0x22) (drop 17 ?h) = ''>''"
    by code_simp
  have jr: "replaceFrom jsClassNameMatch (jsCallback ''tw-'' defaultIgnoreClasses)
      (Some CHR 0x22) (drop 21 ?j) = ''>''"
    by code_simp
  note t1 = whitespace_normalization [of "Some CHR '' ''" ?h 17 ?v "''class='' @ dq" "CHR 0x22"
      "''tw-''" defaultIgnoreClasses]
  note t2 = whitespace_normalization [of "Some CHR '' ''" ?j 21 ?v "''className='' @ dq" "CHR 0x22"
      "''tw-''" defaultIgnoreClasses]
  from t1 hm ht hi d u have a: "replaceFrom htmlClassMatch (htmlCallback ''tw-'' defaultIgnoreClasses)
      (Some CHR '' '') ?h =
      (''class='' @ dq) @ joinSp (classTokens ?v) @ [CHR 0x22]
      @ replaceFrom htmlClassMatch (htmlCallback ''tw-'' defaultIgnoreClasses) (Some CHR 0x22) (drop 17 ?h)"
    by metis
  from t2 jm jt ji d u n have b: "replaceFrom jsClassNameMatch (jsCallback ''tw-'' defaultIgnoreClasses)
      (Some CHR '' '') ?j =
      (''className='' @ dq) @ joinSp (classTokens ?v) @ [CHR 0x22]
      @ replaceFrom jsClassNameMatch (jsCallback ''tw-'' defaultIgnoreClasses) (Some CHR 0x22) (drop 21 ?j)"
    by metis
  from a b show ?thesis unfolding k hr jr by (simp add: dq_def)
qed

text \<open>
  C9 (as amended). Configuration validation: constructing the bot throws exactly when a
  truthy \<open>prefix\<close> is not a string, or a non-empty string \<open>prefix\<close>, less one trailing
  hyphen, is empty or holds a character outside \<open>[A-Za-z0-9_-]\<close>, or a truthy
  \<open>sourceDir\<close> is not a string, or a truthy \<open>logLevel\<close> is not one of the five levels;
  a falsy \<open>prefix\<close>, the empty string among them, is accepted and the bot gets the
  default prefix \<open>tw-\<close>. The rewriter returns for every token, within a recursion depth
  of the token's length plus one.
\<close>

theorem configuration_validation:
  "(isl (constructBot opts) \<longleftrightarrow>
      (truthy (optPrefix opts) \<and> (\<forall>s. optPrefix opts \<noteq> JString s))
      \<or> (\<exists>s. optPrefix opts = JString s \<and> s \<noteq> []
             \<and> (stripTrailingHyphen s = [] \<or> (\<exists>c \<in> set (stripTrailingHyphen s). \<not> isWordCh c)))
      \<or> (truthy (optSourceDir opts) \<and> (\<forall>s. optSourceDir opts \<noteq> JString s))
      \<or> (truthy (optLogLevel opts)
          \<and> (\<forall>l \<in> set logLevels. optLogLevel opts \<noteq> JString l)))
   \<and> (truthy (optPrefix opts) = False \<and> constructBot opts = Inr p \<longrightarrow> p = ''tw-'')
   \<and> addPrefixFuel (Suc (length className)) pfx ign className =
       Some (addPrefixToClass pfx ign className)"
  using validateOptions_throws [of opts] constructBot_throws [of opts]
    constructBot_default [of opts p]
    addPrefixFuel_enough [of className "Suc (length className)" pfx ign]
  by simp

theorem configuration_validation_counterexample:
  "constructBot \<lparr>optPrefix = JString [], optSourceDir = JUndefined, optLogLevel = JUndefined\<rparr>
     = Inr ''tw-''
   \<and> isWordString (stripTrailingHyphen []) = False"
  by code_simp

theorem configuration_validation_witness:
  "isl (constructBot
      \<lparr>optPrefix = JString ''a b-'', optSourceDir = JUndefined, optLogLevel = JUndefined\<rparr>)
   \<and> constructBot
      \<lparr>optPrefix = JNull, optSourceDir = JString ''./src'', optLogLevel = JString ''debug''\<rparr>
     = Inr ''tw-''"
proof -
  let ?bad = "\<lparr>optPrefix = JString ''a b-'', optSourceDir = JUndefined, optLogLevel = JUndefined\<rparr>"
  let ?dflt = "\<lparr>optPrefix = JNull, optSourceDir = JString ''./src'', optLogLevel = JString ''debug''\<rparr>"
  have "stripTrailingHyphen ''a b-'' = ''a b''" by (simp add: stripTrailingHyphen_def)
  moreover have "\<not> isWordCh CHR '' ''"
    by (simp add: isWordCh_def isLower_def isUpper_def isDigit_def)
  ultimately have "\<exists>s. optPrefix ?bad = JString s \<and> s \<noteq> []
      \<and> (stripTrailingHyphen s = [] \<or> (\<exists>c \<in> set (stripTrailingHyphen s). \<not> isWordCh c))"
    by (intro exI [of _ "''a b-''"]) simp
  with configuration_validation [of ?bad] have a: "isl (constructBot ?bad)" by blast
  have "validateOptions ?dflt = Inr ()" by code_simp
  then obtain p where p: "constructBot ?dflt = Inr p" by (simp add: constructBot_def)
  have "truthy (optPrefix ?dflt) = False" by simp
  with configuration_validation [of ?dflt p] p have "p = ''tw-''" by blast
  with p a show ?thesis by simp
qed

end
